theory Spec2Isabelle
  imports Main "HOL-Library.Word"
begin

unbundle bit_operations_syntax

section \<open>Data model of pe_section.c\<close>

text \<open>
  The C types \<^verbatim>\<open>byte\<close>, \<^verbatim>\<open>word\<close> and \<^verbatim>\<open>dword\<close> are unsigned integers of 8, 16 and 32
  bits; all arithmetic on them wraps around. An \<^verbatim>\<open>int\<close> that the code only ever uses
  after its conversion to \<^verbatim>\<open>unsigned\<close> (the instruction length returned by the decoder)
  is kept as the 32-bit word it converts to.
\<close>

type_synonym byte = "8 word"
type_synonym dword = "32 word"
type_synonym cint = "32 word"
type_synonym filebytes = "byte list"

text \<open>
  Modelled from the spec: the classification bits are declared in semblance.h, which is
  not among the sources. The spec names four independent per-byte bits; they are given
  the values of four distinct bits.
\<close>

definition INSTR_SCANNED :: byte where "INSTR_SCANNED = 0x01"
definition INSTR_VALID :: byte where "INSTR_VALID = 0x02"
definition INSTR_JUMP :: byte where "INSTR_JUMP = 0x04"
definition INSTR_FUNC :: byte where "INSTR_FUNC = 0x08"

text \<open>
  Modelled from the spec: \<^verbatim>\<open>MAX_INSTR\<close>, the size of the decode window ("the maximum
  instruction length"), is declared in x86_instr.h, which is not among the sources.
\<close>

definition MAX_INSTR :: nat where "MAX_INSTR = 16"

text \<open>\<^verbatim>\<open>struct export\<close>, \<^verbatim>\<open>struct import_module\<close>, \<^verbatim>\<open>struct section\<close> and
  \<^verbatim>\<open>struct pe\<close> (pe.h), with the fields that pe_section.c reads. An array and its
  element count (\<^verbatim>\<open>sections\<close> and \<^verbatim>\<open>NumberOfSections\<close>, \<^verbatim>\<open>exports\<close> and
  \<^verbatim>\<open>export_count\<close>, \<^verbatim>\<open>imports\<close> and \<^verbatim>\<open>import_count\<close>) are one list.\<close>

record export =
  address :: dword
  name :: string

record import_module =
  nametab_addr :: dword
  count :: dword
  nametab :: "string list"

record pe_section =
  name :: string
  min_alloc :: dword
  address :: dword
  length_sec :: dword
  offset :: dword
  flags :: dword
  instr_flags :: "byte list"

record pe =
  Characteristics :: "16 word"
  ImageBase :: dword
  AddressOfEntryPoint :: dword
  sections :: "pe_section list"
  exports :: "export list"
  imports_pe :: "import_module list"

text \<open>
  Modelled from the spec: \<^verbatim>\<open>struct instr\<close> and the decoder \<^verbatim>\<open>get_instr\<close> belong to
  x86_instr.h and x86_instr.c, which are not among the sources. The record keeps the
  fields pe_section.c reads: \<open>op_branch\<close> is \<^verbatim>\<open>instr.op.flags & OP_BRANCH\<close>, \<open>op_stop\<close> is
  \<^verbatim>\<open>instr.op.flags & OP_STOP\<close>. The decoder is a parameter of every function that calls
  it: from the address and the window of bytes it gives the length and the instruction.
\<close>

datatype argtype = REL16 | ARG_OTHER
datatype disptype = DISP_16 | DISP_OTHER

record instr =
  op_opcode :: "16 word"
  op_subcode :: byte
  op_arg0 :: argtype
  op_name :: string
  op_branch :: bool
  op_stop :: bool
  arg0 :: dword
  modrm_disp :: disptype
  modrm_reg :: byte

type_synonym decoder = "dword \<Rightarrow> byte list \<Rightarrow> cint \<times> instr"

text \<open>
  What the C code leaves undefined is an error value of the model: an access to
  \<^verbatim>\<open>instr_flags\<close> or \<^verbatim>\<open>nametab\<close> outside the array, and the overflow of the signed
  loop counter of \<^verbatim>\<open>scan_segment\<close>.
\<close>

datatype error = OutOfBounds | SignedOverflow

text \<open>
  The program state: the image, whose classification maps \<^verbatim>\<open>scan_segment\<close> updates in
  place, the diagnostics written by \<^verbatim>\<open>warn_at\<close> (compiled in with \<^verbatim>\<open>USE_WARN\<close>), and
  the listing written to standard output. \<open>steps\<close> is not program state: it counts the
  calls of \<^verbatim>\<open>scan_segment\<close> and the iterations of its loop.
\<close>

datatype warning =
    NotInImage dword
  | NotBeginInstr dword
  | BranchNotInImage dword string dword
  | EndOfSection dword

datatype event =
    Gap
  | Blank
  | FuncHeader dword "string option"
  | InstrLine dword "byte list" cint byte instr "string option"

record world =
  image :: pe
  stderr :: "warning list"
  stdout :: "event list"
  steps :: nat

definition warn :: "warning \<Rightarrow> world \<Rightarrow> world" where
  "warn x w = w\<lparr>stderr := stderr w @ [x]\<rparr>"

definition tick :: "world \<Rightarrow> world" where
  "tick w = w\<lparr>steps := Suc (steps w)\<rparr>"

definition emit :: "event \<Rightarrow> world \<Rightarrow> world" where
  "emit x w = w\<lparr>stdout := stdout w @ [x]\<rparr>"

section \<open>Address translation\<close>

fun addr2section_from :: "nat \<Rightarrow> dword \<Rightarrow> pe_section list \<Rightarrow> nat option" where
  "addr2section_from i addr [] = None"
| "addr2section_from i addr (s # ss) =
     (if address s \<le> addr \<and> addr < address s + min_alloc s then Some i
      else addr2section_from (Suc i) addr ss)"

text \<open>\<^verbatim>\<open>addr2section\<close> returns a pointer into \<^verbatim>\<open>pe->sections\<close>: here the index, \<open>None\<close>
  for \<^verbatim>\<open>NULL\<close>.\<close>

definition addr2section :: "dword \<Rightarrow> pe \<Rightarrow> nat option" where
  "addr2section addr pe = addr2section_from 0 addr (sections pe)"

text \<open>\<^verbatim>\<open>addr2offset\<close>: the value is computed in \<^verbatim>\<open>dword\<close> arithmetic and then returned
  as a \<^verbatim>\<open>long\<close>; the model keeps the \<^verbatim>\<open>dword\<close>.\<close>

definition addr2offset :: "dword \<Rightarrow> pe \<Rightarrow> dword" where
  "addr2offset addr pe =
     (case addr2section addr pe of
        None \<Rightarrow> 0
      | Some k \<Rightarrow> addr - address (sections pe ! k) + offset (sections pe ! k))"

section \<open>Symbol lookup\<close>

fun get_export_name_from :: "dword \<Rightarrow> export list \<Rightarrow> string option" where
  "get_export_name_from ip [] = None"
| "get_export_name_from ip (e # es) =
     (if export.address e = ip then Some (export.name e) else get_export_name_from ip es)"

definition get_export_name :: "dword \<Rightarrow> pe \<Rightarrow> string option" where
  "get_export_name ip pe = get_export_name_from ip (exports pe)"

text \<open>The index of \<^verbatim>\<open>get_imported_name\<close>: \<^verbatim>\<open>(offset - nametab_addr) / sizeof(dword)\<close>,
  an unsigned division that truncates.\<close>

definition import_index :: "dword \<Rightarrow> import_module \<Rightarrow> dword" where
  "import_index off m = (off - nametab_addr m) div 4"

fun get_imported_name_from :: "dword \<Rightarrow> import_module list \<Rightarrow> error + string option" where
  "get_imported_name_from off [] = Inr None"
| "get_imported_name_from off (m # ms) =
     (let index = import_index off m in
      if index < count m then
        (if unat index < length (nametab m) then Inr (Some (nametab m ! unat index))
         else Inl OutOfBounds)
      else get_imported_name_from off ms)"

definition get_imported_name :: "dword \<Rightarrow> pe \<Rightarrow> error + string option" where
  "get_imported_name off pe = get_imported_name_from (off - ImageBase pe) (imports_pe pe)"

section \<open>The classification map\<close>

text \<open>\<^verbatim>\<open>sec->instr_flags[i]\<close> for the section of index \<open>k\<close>: a read, and the update
  \<^verbatim>\<open>sec->instr_flags[i] |= m\<close>. The array has as many bytes as the list.\<close>

definition flag_get :: "pe \<Rightarrow> nat \<Rightarrow> dword \<Rightarrow> error + byte" where
  "flag_get pe k i =
     (let fl = instr_flags (sections pe ! k) in
      if unat i < length fl then Inr (fl ! unat i) else Inl OutOfBounds)"

definition flag_or :: "pe \<Rightarrow> nat \<Rightarrow> dword \<Rightarrow> byte \<Rightarrow> error + pe" where
  "flag_or pe k i m =
     (let sec = sections pe ! k; fl = instr_flags sec in
      if unat i < length fl then
        Inr (pe\<lparr>sections := (sections pe)[k := sec\<lparr>instr_flags := fl[unat i := fl ! unat i OR m]\<rparr>]\<rparr>)
      else Inl OutOfBounds)"

section \<open>The file\<close>

text \<open>
  The file \<^verbatim>\<open>f\<close> is the list of its bytes. \<open>read_window\<close> is the sequence
  \<^verbatim>\<open>fseek(f, sec->offset + relip, SEEK_SET); memset(buffer, 0, sizeof(buffer));
  fread(buffer, 1, min(sizeof(buffer), sec->length - relip), f)\<close>: the bytes the file has
  there, at most \<^verbatim>\<open>MAX_INSTR\<close> and at most up to the end of the section, then zeros.
\<close>

definition read_window :: "filebytes \<Rightarrow> pe_section \<Rightarrow> dword \<Rightarrow> byte list" where
  "read_window f sec relip =
     (let got = take (min MAX_INSTR (unat (length_sec sec - relip)))
                  (drop (unat (offset sec + relip)) f)
      in got @ replicate (MAX_INSTR - length got) 0)"

section \<open>The control-flow scanner\<close>

text \<open>
  The loop of line 198,
  \<^verbatim>\<open>for (i = relip; i < relip+instr_length && i < sec->min_alloc; i++)
      sec->instr_flags[i] |= INSTR_SCANNED;\<close>
  started at \<open>i\<close>, with \<open>e\<close> for \<^verbatim>\<open>relip+instr_length\<close>. It returns the image and the
  final \<open>i\<close>, which line 201 reads. The counter is an \<^verbatim>\<open>int\<close>: both comparisons convert it
  to \<^verbatim>\<open>unsigned\<close>, the subscript does not, so a counter above \<^verbatim>\<open>INT_MAX\<close> is a negative
  subscript, and incrementing \<^verbatim>\<open>INT_MAX\<close> overflows.
\<close>

function mark_scanned :: "dword \<Rightarrow> dword \<Rightarrow> nat \<Rightarrow> pe \<Rightarrow> error + (pe \<times> dword)" where
  "mark_scanned i e k pe =
     (if i < e \<and> i < min_alloc (sections pe ! k) then
        (if sint i < 0 then Inl OutOfBounds
         else case flag_or pe k i INSTR_SCANNED of
                Inl x \<Rightarrow> Inl x
              | Inr pe' \<Rightarrow>
                  if i = 0x7FFFFFFF then Inl SignedOverflow
                  else mark_scanned (i + 1) e k pe')
      else Inr (pe, i))"
  by pat_completeness auto
termination
proof (relation "measure (\<lambda>(i, e, k, pe). unat e - unat i)")
  show "wf (measure (\<lambda>(i, e, k, pe). unat e - unat i))"
    by simp
next
  fix i e :: dword and k :: nat and pe pe' :: pe
  assume "i < e \<and> i < min_alloc (sections pe ! k)"
  then have "unat e - unat (i + 1) < unat e - unat i"
    by unat_arith
  then show "((i + 1, e, k, pe'), (i, e, k, pe)) \<in> measure (\<lambda>(i, e, k, pe). unat e - unat i)"
    by simp
qed

declare mark_scanned.simps [simp del]

text \<open>Lines 196 to 198: mark the first byte \<^verbatim>\<open>INSTR_VALID\<close>, then the bytes of the
  instruction \<^verbatim>\<open>INSTR_SCANNED\<close>.\<close>

definition mark_instr :: "pe \<Rightarrow> nat \<Rightarrow> dword \<Rightarrow> cint \<Rightarrow> error + (pe \<times> dword)" where
  "mark_instr pe k relip instr_length =
     (case flag_or pe k relip INSTR_VALID of
        Inl x \<Rightarrow> Inl x
      | Inr pe' \<Rightarrow> mark_scanned relip (relip + instr_length) k pe')"

text \<open>
  \<^verbatim>\<open>scan_segment\<close> (lines 162 to 232) and its \<^verbatim>\<open>while\<close> loop (lines 186 to 229). The
  first argument is fuel: every call and every iteration of the loop takes one unit, a
  recursive call and the rest of the loop get what is left, and \<open>None\<close> says that the
  fuel ran out. \<open>Some (Inl x)\<close> is undefined behaviour of the C code, \<open>Some (Inr w)\<close> the
  state in which the call returns. The section pointer \<^verbatim>\<open>sec\<close> is the index \<open>k\<close>.
\<close>

fun scan_segment :: "nat \<Rightarrow> decoder \<Rightarrow> filebytes \<Rightarrow> dword \<Rightarrow> world \<Rightarrow> (error + world) option"
  and scan_loop :: "nat \<Rightarrow> decoder \<Rightarrow> filebytes \<Rightarrow> nat \<Rightarrow> dword \<Rightarrow> world \<Rightarrow> (error + world) option"
where
  "scan_segment 0 D f ip w = None"
| "scan_segment (Suc n) D f ip w =
     (case addr2section ip (image w) of
        None \<Rightarrow> Some (Inr (warn (NotInImage ip) (tick w)))
      | Some k \<Rightarrow>
          (case flag_get (image w) k (ip - address (sections (image w) ! k)) of
             Inl x \<Rightarrow> Some (Inl x)
           | Inr fl \<Rightarrow>
               scan_loop n D f k ip
                 (if fl AND (INSTR_VALID OR INSTR_SCANNED) = INSTR_SCANNED
                  then warn (NotBeginInstr ip) (tick w) else tick w)))"
| "scan_loop 0 D f k ip w = None"
| "scan_loop (Suc n) D f k ip w =
     (let sec = sections (image w) ! k; relip = ip - address sec in
      if relip < length_sec sec then
        (case flag_get (image w) k relip of
           Inl x \<Rightarrow> Some (Inl x)
         | Inr fl \<Rightarrow>
             if fl AND INSTR_SCANNED \<noteq> 0 then Some (Inr (tick w))
             else
               (case D ip (read_window f sec relip) of
                  (instr_length, instr) \<Rightarrow>
                    (case mark_instr (image w) k relip instr_length of
                       Inl x \<Rightarrow> Some (Inl x)
                     | Inr (pe1, i) \<Rightarrow>
                         if i < ip + instr_length \<and> i = min_alloc sec
                         then Some (Inr (warn (EndOfSection ip) (tick (w\<lparr>image := pe1\<rparr>))))
                         else
                           (case
                              (if op_branch instr then
                                 (case addr2section (arg0 instr) pe1 of
                                    Some t \<Rightarrow>
                                      (case flag_or pe1 t (arg0 instr - address (sections pe1 ! t))
                                              (if op_name instr = ''call'' then INSTR_FUNC
                                               else INSTR_JUMP) of
                                         Inl x \<Rightarrow> Some (Inl x)
                                       | Inr pe2 \<Rightarrow>
                                           scan_segment n D f (arg0 instr)
                                             (tick (w\<lparr>image := pe2\<rparr>)))
                                  | None \<Rightarrow>
                                      Some (Inr (warn (BranchNotInImage ip (op_name instr) (arg0 instr))
                                                   (tick (w\<lparr>image := pe1\<rparr>)))))
                               else Some (Inr (tick (w\<lparr>image := pe1\<rparr>))))
                            of
                              None \<Rightarrow> None
                            | Some (Inl x) \<Rightarrow> Some (Inl x)
                            | Some (Inr w2) \<Rightarrow>
                                if op_stop instr then Some (Inr w2)
                                else scan_loop n D f k (ip + instr_length) w2))))
      else Some (Inr (warn (EndOfSection ip) w)))"

text \<open>\<^verbatim>\<open>read_sections\<close>: one scan for each export, then one for the entry point unless
  the image is a DLL (\<^verbatim>\<open>Characteristics & 0x2000\<close>). Every scan gets the fuel \<open>n\<close>.\<close>

fun scan_exports :: "nat \<Rightarrow> decoder \<Rightarrow> filebytes \<Rightarrow> export list \<Rightarrow> world \<Rightarrow> (error + world) option" where
  "scan_exports n D f [] w = Some (Inr w)"
| "scan_exports n D f (e # es) w =
     (case scan_segment n D f (export.address e) w of
        None \<Rightarrow> None
      | Some (Inl x) \<Rightarrow> Some (Inl x)
      | Some (Inr w') \<Rightarrow> scan_exports n D f es w')"

definition read_sections :: "nat \<Rightarrow> decoder \<Rightarrow> filebytes \<Rightarrow> world \<Rightarrow> (error + world) option" where
  "read_sections n D f w =
     (case scan_exports n D f (exports (image w)) w of
        None \<Rightarrow> None
      | Some (Inl x) \<Rightarrow> Some (Inl x)
      | Some (Inr w') \<Rightarrow>
          if Characteristics (image w') AND 0x2000 = 0
          then scan_segment n D f (AddressOfEntryPoint (image w')) w'
          else Some (Inr w'))"

section \<open>The renderer\<close>

text \<open>
  Modelled from the spec: \<^verbatim>\<open>read_byte\<close> is declared in semblance.h, which is not among
  the sources; it reads the byte at the position of the file \<^verbatim>\<open>f\<close> and moves the
  position one byte on. At the end of the file there is no byte to read and the value is
  not zero (the C library's \<^verbatim>\<open>EOF\<close>).
\<close>

definition read_byte :: "filebytes \<Rightarrow> nat \<Rightarrow> byte" where
  "read_byte f pos = (if pos < length f then f ! pos else 0xFF)"

text \<open>Line 133, \<^verbatim>\<open>while (read_byte() == 0) relip++;\<close>, with the file at position
  \<open>pos\<close>.\<close>

function skip_zeroes :: "filebytes \<Rightarrow> nat \<Rightarrow> dword \<Rightarrow> dword" where
  "skip_zeroes f pos relip =
     (if read_byte f pos = 0 then skip_zeroes f (Suc pos) (relip + 1) else relip)"
  by pat_completeness auto
termination
  by (relation "measure (\<lambda>(f, pos, relip). length f - pos)")
     (auto simp: read_byte_def split: if_splits)

declare skip_zeroes.simps [simp del]

text \<open>Line 136, \<^verbatim>\<open>while ((relip < sec->length) && (relip < sec->min_alloc) &&
  !(sec->instr_flags[relip] & INSTR_VALID)) relip++;\<close>\<close>

function skip_invalid :: "pe \<Rightarrow> nat \<Rightarrow> dword \<Rightarrow> error + dword" where
  "skip_invalid pe k relip =
     (if relip < length_sec (sections pe ! k) \<and> relip < min_alloc (sections pe ! k) then
        (case flag_get pe k relip of
           Inl x \<Rightarrow> Inl x
         | Inr fl \<Rightarrow> if fl AND INSTR_VALID = 0 then skip_invalid pe k (relip + 1) else Inr relip)
      else Inr relip)"
  by pat_completeness auto
termination
proof (relation "measure (\<lambda>(pe, k, relip). unat (length_sec (sections pe ! k)) - unat relip)")
  show "wf (measure (\<lambda>(pe, k, relip). unat (length_sec (sections pe ! k)) - unat relip))"
    by simp
next
  fix pe :: pe and k :: nat and relip :: dword
  assume "relip < length_sec (sections pe ! k) \<and> relip < min_alloc (sections pe ! k)"
  then have "unat (length_sec (sections pe ! k)) - unat (relip + 1)
      < unat (length_sec (sections pe ! k)) - unat relip"
    by unat_arith
  then show "((pe, k, relip + 1), (pe, k, relip))
      \<in> measure (\<lambda>(pe, k, relip). unat (length_sec (sections pe ! k)) - unat relip)"
    by simp
qed

declare skip_invalid.simps [simp del]

text \<open>Lines 126 to 138, entered at a byte that is not \<^verbatim>\<open>INSTR_VALID\<close>: the search for
  the next offset to print at, in disassemble-all mode (\<open>all\<close>) and in default mode.\<close>

definition find_valid :: "bool \<Rightarrow> filebytes \<Rightarrow> nat \<Rightarrow> dword \<Rightarrow> world \<Rightarrow> error + (dword \<times> world)" where
  "find_valid all f k relip w =
     (let sec = sections (image w) ! k in
      if all then
        (let pos = unat (offset sec + relip) in
         if read_byte f pos = 0
         then Inr (skip_zeroes f (Suc pos) (relip + 1), emit Gap w)
         else Inr (skip_zeroes f (Suc pos) relip, w))
      else
        (case skip_invalid (image w) k relip of
           Inl x \<Rightarrow> Inl x
         | Inr r \<Rightarrow> Inr (r, emit Gap w)))"

text \<open>\<^verbatim>\<open>print_pe_instr\<close> (lines 82 to 114). The text of the line is the work of
  \<^verbatim>\<open>print_instr\<close> (x86_instr.c, not among the sources): the model keeps the arguments
  that \<^verbatim>\<open>print_instr\<close> is given.\<close>

definition print_pe_instr :: "decoder \<Rightarrow> nat \<Rightarrow> dword \<Rightarrow> byte list \<Rightarrow> pe \<Rightarrow> error + (cint \<times> event)" where
  "print_pe_instr D k ip p pe =
     (case D ip p of
        (len, instr) \<Rightarrow>
          (case (if op_opcode instr = 0xff \<and> (op_subcode instr = 2 \<or> op_subcode instr = 4)
                    \<and> modrm_disp instr = DISP_16 \<and> modrm_reg instr = 8
                 then get_imported_name (arg0 instr) pe else Inr None) of
             Inl x \<Rightarrow> Inl x
           | Inr c \<Rightarrow>
               (let comment = (if op_arg0 instr = REL16 \<and> c = None
                               then get_export_name (arg0 instr) pe else c)
                in case flag_get pe k (ip - address (sections pe ! k)) of
                     Inl x \<Rightarrow> Inl x
                   | Inr fl \<Rightarrow> Inr (len, InstrLine ip p len fl instr comment))))"

text \<open>Lines 140 to 157, past the test of line 142: the header of a function and the
  line of the instruction at \<open>relip\<close>. The result is the length of the instruction.\<close>

definition print_one :: "decoder \<Rightarrow> filebytes \<Rightarrow> nat \<Rightarrow> dword \<Rightarrow> world \<Rightarrow> error + (cint \<times> world)" where
  "print_one D f k relip w =
     (let sec = sections (image w) ! k; ip = relip + address sec;
          buffer = read_window f sec relip in
      case flag_get (image w) k relip of
        Inl x \<Rightarrow> Inl x
      | Inr fl \<Rightarrow>
          (let w1 = (if fl AND INSTR_FUNC \<noteq> 0
                     then emit (FuncHeader ip (get_export_name ip (image w))) (emit Blank w)
                     else w)
           in case print_pe_instr D k ip buffer (image w1) of
                Inl x \<Rightarrow> Inl x
              | Inr (len, line) \<Rightarrow> Inr (len, emit line w1)))"

text \<open>
  \<^verbatim>\<open>print_disassembly\<close> (lines 116 to 160): its loop from the offset \<open>relip\<close>, with fuel
  for the iterations. \<open>all\<close> is \<^verbatim>\<open>opts & DISASSEMBLE_ALL\<close>.
\<close>

fun print_loop :: "nat \<Rightarrow> bool \<Rightarrow> decoder \<Rightarrow> filebytes \<Rightarrow> nat \<Rightarrow> dword \<Rightarrow> world \<Rightarrow> (error + world) option" where
  "print_loop 0 all D f k relip w = None"
| "print_loop (Suc n) all D f k relip w =
     (let sec = sections (image w) ! k in
      if relip < length_sec sec then
        (case flag_get (image w) k relip of
           Inl x \<Rightarrow> Some (Inl x)
         | Inr fl \<Rightarrow>
             (case (if fl AND INSTR_VALID = 0 then find_valid all f k relip w
                    else Inr (relip, w)) of
                Inl x \<Rightarrow> Some (Inl x)
              | Inr (relip1, w1) \<Rightarrow>
                  if relip1 \<ge> length_sec sec \<or> relip1 \<ge> min_alloc sec then Some (Inr w1)
                  else
                    (case print_one D f k relip1 w1 of
                       Inl x \<Rightarrow> Some (Inl x)
                     | Inr (len, w2) \<Rightarrow> print_loop n all D f k (relip1 + len) w2)))
      else Some (Inr (emit Blank w)))"

definition print_disassembly :: "nat \<Rightarrow> bool \<Rightarrow> decoder \<Rightarrow> filebytes \<Rightarrow> nat \<Rightarrow> world \<Rightarrow> (error + world) option" where
  "print_disassembly n all D f k w = print_loop n all D f k 0 w"

section \<open>Predicates of the specification\<close>

text \<open>The test of \<^verbatim>\<open>addr2section\<close>: the address lies in the virtual range of the
  section, \<^verbatim>\<open>[address, address + min_alloc)\<close>, in \<^verbatim>\<open>dword\<close> arithmetic.\<close>

definition in_section :: "dword \<Rightarrow> pe_section \<Rightarrow> bool" where
  "in_section a s \<longleftrightarrow> address s \<le> a \<and> a < address s + min_alloc s"

text \<open>
  Two images are related by \<open>pe_rel R\<close> when they differ at most in their classification
  maps, the maps have the same sizes, and \<open>R\<close> relates the old and the new flags of every
  byte.
\<close>

definition sec_rel :: "(byte \<Rightarrow> byte \<Rightarrow> bool) \<Rightarrow> pe_section \<Rightarrow> pe_section \<Rightarrow> bool" where
  "sec_rel R s s' \<longleftrightarrow>
     s'\<lparr>instr_flags := []\<rparr> = s\<lparr>instr_flags := []\<rparr> \<and>
     list_all2 R (instr_flags s) (instr_flags s')"

definition pe_rel :: "(byte \<Rightarrow> byte \<Rightarrow> bool) \<Rightarrow> pe \<Rightarrow> pe \<Rightarrow> bool" where
  "pe_rel R pe pe' \<longleftrightarrow>
     pe'\<lparr>sections := []\<rparr> = pe\<lparr>sections := []\<rparr> \<and>
     list_all2 (sec_rel R) (sections pe) (sections pe')"

text \<open>A byte's flags grow: every bit that was set is still set, and the only bits that
  may have been added are the four classification bits.\<close>

definition bits_grow :: "byte \<Rightarrow> byte \<Rightarrow> bool" where
  "bits_grow x y \<longleftrightarrow>
     x AND y = x \<and>
     y AND NOT (INSTR_VALID OR INSTR_SCANNED OR INSTR_FUNC OR INSTR_JUMP)
       = x AND NOT (INSTR_VALID OR INSTR_SCANNED OR INSTR_FUNC OR INSTR_JUMP)"

definition grows :: "pe \<Rightarrow> pe \<Rightarrow> bool" where
  "grows pe pe' \<longleftrightarrow> pe_rel bits_grow pe pe'"

text \<open>The invariant of the spec: a byte that is \<^verbatim>\<open>VALID\<close> is \<^verbatim>\<open>SCANNED\<close>.\<close>

definition valid_scanned :: "pe \<Rightarrow> bool" where
  "valid_scanned pe \<longleftrightarrow>
     (\<forall>s \<in> set (sections pe). \<forall>b \<in> set (instr_flags s).
        b AND INSTR_VALID \<noteq> 0 \<longrightarrow> b AND INSTR_SCANNED \<noteq> 0)"

text \<open>The initial state of the maps: every byte has no bit set.\<close>

definition all_empty :: "pe \<Rightarrow> bool" where
  "all_empty pe \<longleftrightarrow> (\<forall>s \<in> set (sections pe). \<forall>b \<in> set (instr_flags s). b = 0)"

text \<open>
  The map of a section has \<^verbatim>\<open>min_alloc\<close> bytes (the spec: "a per-byte classification
  map of size \<^verbatim>\<open>min_alloc\<close>"), and \<^verbatim>\<open>min_alloc\<close> is below \<open>2 ^ 31\<close>, so that an offset
  into the section is the same number as an \<^verbatim>\<open>int\<close> and as a \<^verbatim>\<open>dword\<close> and the end of
  an instruction that starts in the section does not wrap around.
\<close>

definition image_ok :: "pe \<Rightarrow> bool" where
  "image_ok pe \<longleftrightarrow>
     (\<forall>s \<in> set (sections pe).
        length (instr_flags s) = unat (min_alloc s) \<and> unat (min_alloc s) < 2 ^ 31)"

text \<open>The contract of the decoder: an instruction has at least one byte and at most
  \<^verbatim>\<open>MAX_INSTR\<close>.\<close>

definition decoder_ok :: "decoder \<Rightarrow> bool" where
  "decoder_ok D \<longleftrightarrow> (\<forall>ip p. 0 < fst (D ip p) \<and> unat (fst (D ip p)) \<le> MAX_INSTR)"

text \<open>The number of bytes of a map, and of all maps of an image, that are not
  \<^verbatim>\<open>SCANNED\<close>.\<close>

definition unsc :: "byte list \<Rightarrow> nat" where
  "unsc fl = length (filter (\<lambda>b. b AND INSTR_SCANNED = 0) fl)"

definition unscanned :: "pe \<Rightarrow> nat" where
  "unscanned pe = sum_list (map (\<lambda>s. unsc (instr_flags s)) (sections pe))"

text \<open>The states that a sequence of calls of \<^verbatim>\<open>scan_segment\<close> reaches from the empty
  maps, each call returning.\<close>

inductive reachable :: "decoder \<Rightarrow> filebytes \<Rightarrow> world \<Rightarrow> bool" for D :: decoder and f :: filebytes where
  start: "image_ok (image w) \<Longrightarrow> all_empty (image w) \<Longrightarrow> reachable D f w"
| call: "reachable D f w \<Longrightarrow> scan_segment n D f ip w = Some (Inr w') \<Longrightarrow> reachable D f w'"

text \<open>An entry address is settled when a scan from it returns at once: it is in no
  section, or beyond the bytes of its section in the file, or its byte is
  \<^verbatim>\<open>SCANNED\<close>.\<close>

definition settled :: "dword \<Rightarrow> pe \<Rightarrow> bool" where
  "settled ip pe \<longleftrightarrow>
     (case addr2section ip pe of
        None \<Rightarrow> True
      | Some k \<Rightarrow>
          (let sec = sections pe ! k; relip = ip - address sec in
           unat relip < length (instr_flags sec) \<and>
           (length_sec sec \<le> relip \<or> instr_flags sec ! unat relip AND INSTR_SCANNED \<noteq> 0)))"

section \<open>Concrete images\<close>

text \<open>A section without data in the file, at file offset zero.\<close>

definition bss_section :: pe_section where
  "bss_section = \<lparr>name = ''.bss'', min_alloc = 4, address = 0x1000, length_sec = 0,
     offset = 0, flags = 0x80, instr_flags = [0, 0, 0, 0]\<rparr>"

definition bss_image :: pe where
  "bss_image = \<lparr>Characteristics = 0, ImageBase = 0x400000, AddressOfEntryPoint = 0x1000,
     sections = [bss_section], exports = [], imports_pe = []\<rparr>"

definition import_image :: pe where
  "import_image = \<lparr>Characteristics = 0, ImageBase = 0x400000, AddressOfEntryPoint = 0x1000,
     sections = [], exports = [],
     imports_pe = [\<lparr>nametab_addr = 0x2000, count = 2, nametab = [''CreateFileA'', ''ExitProcess'']\<rparr>]\<rparr>"


text \<open>
  A decoder that reads every instruction as a two-byte jump to itself, and an image with
  one code section of four bytes at \<^verbatim>\<open>0x1000\<close> whose entry point is such a jump. The
  file has four bytes of header before the section.
\<close>

definition jmp_self :: decoder where
  "jmp_self ip p =
     (2, \<lparr>op_opcode = 0xEB, op_subcode = 0, op_arg0 = ARG_OTHER, op_name = ''jmp'',
          op_branch = True, op_stop = True, arg0 = ip, modrm_disp = DISP_OTHER,
          modrm_reg = 0\<rparr>)"

definition loop_section :: pe_section where
  "loop_section = \<lparr>name = ''.text'', min_alloc = 4, address = 0x1000, length_sec = 4,
     offset = 4, flags = 0x20, instr_flags = [0, 0, 0, 0]\<rparr>"

definition loop_image :: pe where
  "loop_image = \<lparr>Characteristics = 0, ImageBase = 0x400000, AddressOfEntryPoint = 0x1000,
     sections = [loop_section], exports = [], imports_pe = []\<rparr>"

definition loop_file :: filebytes where
  "loop_file = [0x4D, 0x5A, 0, 0, 0xEB, 0xFE, 0x90, 0x90]"

definition start_world :: "pe \<Rightarrow> world" where
  "start_world pe = \<lparr>image = pe, stderr = [], stdout = [], steps = 0\<rparr>"

text \<open>The state after the scan of \<open>loop_image\<close> from its entry point, and the listing of
  its section in default mode.\<close>

definition loop_scanned :: world where
  "loop_scanned =
     \<lparr>image = loop_image\<lparr>sections := [loop_section\<lparr>instr_flags := [7, 1, 0, 0]\<rparr>]\<rparr>,
      stderr = [], stdout = [], steps = 4\<rparr>"

definition loop_listing :: "event list" where
  "loop_listing =
     [InstrLine 0x1000 ([0xEB, 0xFE, 0x90, 0x90] @ replicate 12 0) 2 7
        (snd (jmp_self 0x1000 [])) None,
      Gap]"

text \<open>
  A decoder that reads every instruction as a two-byte conditional jump to itself (a
  branch that falls through), and an image whose code section has exactly these two
  bytes.
\<close>

definition jz_self :: decoder where
  "jz_self ip p =
     (2, \<lparr>op_opcode = 0x74, op_subcode = 0, op_arg0 = ARG_OTHER, op_name = ''jz'',
          op_branch = True, op_stop = False, arg0 = ip, modrm_disp = DISP_OTHER,
          modrm_reg = 0\<rparr>)"

definition tail_section :: pe_section where
  "tail_section = \<lparr>name = ''.text'', min_alloc = 2, address = 0x1000, length_sec = 2,
     offset = 4, flags = 0x20, instr_flags = [0, 0]\<rparr>"

definition tail_image :: pe where
  "tail_image = \<lparr>Characteristics = 0, ImageBase = 0x400000, AddressOfEntryPoint = 0x1000,
     sections = [tail_section], exports = [], imports_pe = []\<rparr>"

definition tail_file :: filebytes where
  "tail_file = [0x4D, 0x5A, 0, 0, 0x74, 0xFE]"

text \<open>
  A decoder that reads every instruction as one byte that neither branches nor stops, and
  an image whose code section of four bytes, \<^verbatim>\<open>90 00 00 C3\<close>, no scan has reached.
\<close>

definition one_byte :: decoder where
  "one_byte ip p =
     (1, \<lparr>op_opcode = 0x90, op_subcode = 0, op_arg0 = ARG_OTHER, op_name = ''nop'',
          op_branch = False, op_stop = False, arg0 = 0, modrm_disp = DISP_OTHER,
          modrm_reg = 0\<rparr>)"

definition data_section :: pe_section where
  "data_section = \<lparr>name = ''.text'', min_alloc = 4, address = 0x1000, length_sec = 4,
     offset = 4, flags = 0x20, instr_flags = [0, 0, 0, 0]\<rparr>"

definition data_image :: pe where
  "data_image = \<lparr>Characteristics = 0, ImageBase = 0x400000, AddressOfEntryPoint = 0x1000,
     sections = [data_section], exports = [], imports_pe = []\<rparr>"

definition data_file :: filebytes where
  "data_file = [0x4D, 0x5A, 0, 0, 0x90, 0x00, 0x00, 0xC3]"

text \<open>
  The scenario of the spec: one code section \<^verbatim>\<open>[0x1000, 0x1000 + 0x40)\<close>, no exports, and
  at the entry point \<^verbatim>\<open>0x1000\<close> a two-byte jump to \<^verbatim>\<open>0x1000\<close>, followed by filler.
\<close>

definition scenario_section :: pe_section where
  "scenario_section = \<lparr>name = ''.text'', min_alloc = 0x40, address = 0x1000,
     length_sec = 0x40, offset = 4, flags = 0x20, instr_flags = replicate 0x40 0\<rparr>"

definition scenario_image :: pe where
  "scenario_image = \<lparr>Characteristics = 0, ImageBase = 0x400000,
     AddressOfEntryPoint = 0x1000, sections = [scenario_section], exports = [],
     imports_pe = []\<rparr>"

definition scenario_file :: filebytes where
  "scenario_file = [0x4D, 0x5A, 0, 0, 0xEB, 0xFE] @ replicate 0x3E 0x90"

text \<open>The image \<open>loop_image\<close> with one export, at offset 2 of its section.\<close>

definition export_image :: pe where
  "export_image = loop_image\<lparr>exports := [\<lparr>export.address = 0x1002, export.name = ''run''\<rparr>]\<rparr>"

definition export_scanned :: world where
  "export_scanned =
     \<lparr>image = export_image\<lparr>sections := [loop_section\<lparr>instr_flags := [7, 1, 3, 1]\<rparr>]\<rparr>,
      stderr = [EndOfSection 0x1002], stdout = [], steps = 6\<rparr>"

text \<open>
  The scenario of the spec for the renderer: a section whose bytes \<^verbatim>\<open>[0, 10)\<close> no scan
  has reached, followed by a two-byte instruction at offset 10 that is \<^verbatim>\<open>VALID\<close> and
  \<^verbatim>\<open>SCANNED\<close>.
\<close>

definition gap_section :: pe_section where
  "gap_section = \<lparr>name = ''.text'', min_alloc = 12, address = 0x1000, length_sec = 12,
     offset = 4, flags = 0x20, instr_flags = [0, 0, 0, 0, 0, 0, 0, 0, 0, 0, 3, 1]\<rparr>"

definition gap_image :: pe where
  "gap_image = \<lparr>Characteristics = 0, ImageBase = 0x400000, AddressOfEntryPoint = 0x100A,
     sections = [gap_section], exports = [], imports_pe = []\<rparr>"

definition gap_file :: filebytes where
  "gap_file = [0x4D, 0x5A, 0, 0,
               0x90, 0x90, 0x90, 0x90, 0x90, 0x90, 0x90, 0x90, 0x90, 0x90, 0xEB, 0xFE]"
section \<open>Address translation: lemmas\<close>

lemma addr2section_from_Some:
  "addr2section_from i a ss = Some k \<Longrightarrow>
     i \<le> k \<and> k - i < length ss \<and> in_section a (ss ! (k - i)) \<and> (\<forall>j < k - i. \<not> in_section a (ss ! j))"
proof (induction ss arbitrary: i)
  case Nil
  then show ?case by simp
next
  case (Cons s ss)
  show ?case
  proof (cases "in_section a s")
    case True
    with Cons.prems show ?thesis by (simp add: in_section_def)
  next
    case False
    with Cons.prems have rec: "addr2section_from (Suc i) a ss = Some k"
      by (auto simp: in_section_def split: if_splits)
    from Cons.IH [OF rec] have le: "Suc i \<le> k" and len: "k - Suc i < length ss"
      and hit: "in_section a (ss ! (k - Suc i))"
      and first: "\<forall>j < k - Suc i. \<not> in_section a (ss ! j)"
      by simp_all
    from le have eq: "k - i = Suc (k - Suc i)" by simp
    have "\<forall>j < k - i. \<not> in_section a ((s # ss) ! j)"
    proof (intro allI impI)
      fix j assume "j < k - i"
      then show "\<not> in_section a ((s # ss) ! j)"
        using False first eq by (cases j) simp_all
    qed
    with le len hit eq show ?thesis by simp
  qed
qed

lemma addr2section_from_None:
  "addr2section_from i a ss = None \<longleftrightarrow> (\<forall>s \<in> set ss. \<not> in_section a s)"
  by (induction ss arbitrary: i) (simp_all add: in_section_def)

lemma addr2section_Some:
  "addr2section a pe = Some k \<Longrightarrow>
     k < length (sections pe) \<and> in_section a (sections pe ! k) \<and>
     (\<forall>j < k. \<not> in_section a (sections pe ! j))"
  using addr2section_from_Some [of 0 a "sections pe" k] by (simp add: addr2section_def)

lemma addr2section_None:
  "addr2section a pe = None \<longleftrightarrow> (\<forall>s \<in> set (sections pe). \<not> in_section a s)"
  by (simp add: addr2section_def addr2section_from_None)

section \<open>Symbol lookup: lemmas\<close>

lemma get_imported_name_from_find:
  assumes "\<forall>m \<in> set ms. unat (count m) \<le> length (nametab m)"
  shows "get_imported_name_from off ms =
     Inr (map_option (\<lambda>m. nametab m ! unat (import_index off m))
            (find (\<lambda>m. import_index off m < count m) ms))"
  using assms
proof (induction ms)
  case Nil
  then show ?case by simp
next
  case (Cons m ms)
  show ?case
  proof (cases "import_index off m < count m")
    case True
    then have "unat (import_index off m) < unat (count m)"
      by (simp add: word_less_nat_alt)
    with Cons.prems have "unat (import_index off m) < length (nametab m)"
      by simp
    with True show ?thesis by simp
  next
    case False
    with Cons show ?thesis by simp
  qed
qed

section \<open>Images that differ in their maps only\<close>

lemma sec_rel_fields:
  assumes "sec_rel R s s'"
  shows "address s' = address s" "min_alloc s' = min_alloc s" "length_sec s' = length_sec s"
    "offset s' = offset s" "length (instr_flags s') = length (instr_flags s)"
proof -
  from assms have e: "s'\<lparr>instr_flags := []\<rparr> = s\<lparr>instr_flags := []\<rparr>"
    and l: "list_all2 R (instr_flags s) (instr_flags s')"
    by (simp_all add: sec_rel_def)
  from arg_cong [OF e, of address] show "address s' = address s" by simp
  from arg_cong [OF e, of min_alloc] show "min_alloc s' = min_alloc s" by simp
  from arg_cong [OF e, of length_sec] show "length_sec s' = length_sec s" by simp
  from arg_cong [OF e, of offset] show "offset s' = offset s" by simp
  from l show "length (instr_flags s') = length (instr_flags s)"
    by (simp add: list_all2_lengthD)
qed

lemma sec_rel_refl: "(\<And>x. R x x) \<Longrightarrow> sec_rel R s s"
  by (simp add: sec_rel_def list_all2_refl)

lemma sec_rel_trans:
  assumes "sec_rel R a b" and "sec_rel S b c" and "\<And>x y z. R x y \<Longrightarrow> S y z \<Longrightarrow> T x z"
  shows "sec_rel T a c"
proof -
  from assms(1,2) have "list_all2 R (instr_flags a) (instr_flags b)"
    and "list_all2 S (instr_flags b) (instr_flags c)"
    by (simp_all add: sec_rel_def)
  then have "list_all2 T (instr_flags a) (instr_flags c)"
    by (rule list_all2_trans [rotated]) (rule assms(3))
  with assms(1,2) show ?thesis
    by (simp add: sec_rel_def)
qed

lemma sec_rel_mono: "sec_rel R a b \<Longrightarrow> (\<And>x y. R x y \<Longrightarrow> S x y) \<Longrightarrow> sec_rel S a b"
  unfolding sec_rel_def by (auto elim: list_all2_mono)

lemma pe_rel_refl: "(\<And>x. R x x) \<Longrightarrow> pe_rel R pe pe"
  by (simp add: pe_rel_def list_all2_refl sec_rel_refl)

lemma pe_rel_trans:
  assumes "pe_rel R a b" and "pe_rel S b c" and "\<And>x y z. R x y \<Longrightarrow> S y z \<Longrightarrow> T x z"
  shows "pe_rel T a c"
proof -
  from assms(1,2) have "list_all2 (sec_rel R) (sections a) (sections b)"
    and "list_all2 (sec_rel S) (sections b) (sections c)"
    by (simp_all add: pe_rel_def)
  then have "list_all2 (sec_rel T) (sections a) (sections c)"
    by (rule list_all2_trans [rotated]) (rule sec_rel_trans, assumption+, rule assms(3))
  with assms(1,2) show ?thesis
    by (simp add: pe_rel_def)
qed

lemma pe_rel_mono: "pe_rel R a b \<Longrightarrow> (\<And>x y. R x y \<Longrightarrow> S x y) \<Longrightarrow> pe_rel S a b"
  unfolding pe_rel_def by (auto elim!: list_all2_mono intro: sec_rel_mono)

lemma pe_rel_fields:
  assumes "pe_rel R pe pe'"
  shows "exports pe' = exports pe" "imports_pe pe' = imports_pe pe"
    "Characteristics pe' = Characteristics pe" "ImageBase pe' = ImageBase pe"
    "AddressOfEntryPoint pe' = AddressOfEntryPoint pe"
    "length (sections pe') = length (sections pe)"
proof -
  from assms have e: "pe'\<lparr>sections := []\<rparr> = pe\<lparr>sections := []\<rparr>"
    and l: "list_all2 (sec_rel R) (sections pe) (sections pe')"
    by (simp_all add: pe_rel_def)
  from arg_cong [OF e, of exports] show "exports pe' = exports pe" by simp
  from arg_cong [OF e, of imports_pe] show "imports_pe pe' = imports_pe pe" by simp
  from arg_cong [OF e, of Characteristics] show "Characteristics pe' = Characteristics pe" by simp
  from arg_cong [OF e, of ImageBase] show "ImageBase pe' = ImageBase pe" by simp
  from arg_cong [OF e, of AddressOfEntryPoint]
  show "AddressOfEntryPoint pe' = AddressOfEntryPoint pe" by simp
  from l show "length (sections pe') = length (sections pe)"
    by (simp add: list_all2_lengthD)
qed

lemma pe_rel_section:
  "pe_rel R pe pe' \<Longrightarrow> k < length (sections pe) \<Longrightarrow> sec_rel R (sections pe ! k) (sections pe' ! k)"
  by (simp add: pe_rel_def list_all2_nthD)

lemma pe_rel_byte:
  assumes "pe_rel R pe pe'" and "k < length (sections pe)"
    and "j < length (instr_flags (sections pe ! k))"
  shows "R (instr_flags (sections pe ! k) ! j) (instr_flags (sections pe' ! k) ! j)"
  using pe_rel_section [OF assms(1,2)] assms(3)
  by (simp add: sec_rel_def list_all2_nthD)

lemma addr2section_from_rel:
  "list_all2 (sec_rel R) ss ss' \<Longrightarrow> addr2section_from i a ss' = addr2section_from i a ss"
proof (induction ss ss' arbitrary: i rule: list_all2_induct)
  case Nil
  then show ?case by simp
next
  case (Cons s ss s' ss')
  then show ?case
    by (simp add: sec_rel_fields)
qed

lemma addr2section_rel: "pe_rel R pe pe' \<Longrightarrow> addr2section a pe' = addr2section a pe"
  unfolding addr2section_def pe_rel_def by (blast intro: addr2section_from_rel)

lemma list_all2_update_self:
  "j < length xs \<Longrightarrow> R (xs ! j) y \<Longrightarrow> (\<And>x. R x x) \<Longrightarrow> list_all2 R xs (xs[j := y])"
  by (auto simp: list_all2_conv_all_nth nth_list_update)

lemma flag_or_rel:
  assumes "flag_or pe k i m = Inr pe'"
  shows "pe_rel (\<lambda>x y. y = x \<or> y = x OR m) pe pe'"
proof (cases "k < length (sections pe)")
  case False
  with assms have "pe' = pe"
    by (auto simp: flag_or_def Let_def list_update_beyond not_less split: if_splits)
  then show ?thesis by (simp add: pe_rel_refl)
next
  case True
  let ?s = "sections pe ! k"
  let ?fl = "instr_flags ?s"
  from assms have b: "unat i < length ?fl"
    and e: "pe' = pe\<lparr>sections := (sections pe)[k := ?s\<lparr>instr_flags := ?fl[unat i := ?fl ! unat i OR m]\<rparr>]\<rparr>"
    by (auto simp: flag_or_def Let_def split: if_splits)
  have one: "list_all2 (\<lambda>x y. y = x \<or> y = x OR m) ?fl (?fl[unat i := ?fl ! unat i OR m])"
    using b by (intro list_all2_update_self) simp_all
  have "list_all2 (sec_rel (\<lambda>x y. y = x \<or> y = x OR m)) (sections pe)
          ((sections pe)[k := ?s\<lparr>instr_flags := ?fl[unat i := ?fl ! unat i OR m]\<rparr>])"
    using one True by (intro list_all2_update_self) (simp_all add: sec_rel_def list_all2_refl)
  with e show ?thesis by (simp add: pe_rel_def)
qed

lemma flag_or_byte:
  assumes "flag_or pe k i m = Inr pe'" and "k < length (sections pe)"
  shows "unat i < length (instr_flags (sections pe ! k))"
    and "instr_flags (sections pe' ! k) ! unat i = instr_flags (sections pe ! k) ! unat i OR m"
  using assms by (auto simp: flag_or_def Let_def split: if_splits)

lemma mark_scanned_rel:
  "mark_scanned i e k pe = Inr (pe', j) \<Longrightarrow>
     pe_rel (\<lambda>x y. y = x \<or> y = x OR INSTR_SCANNED) pe pe'"
proof (induction i e k pe rule: mark_scanned.induct)
  case (1 i e k pe)
  show ?case
  proof (cases "i < e \<and> i < min_alloc (sections pe ! k)")
    case False
    with "1.prems" have "pe' = pe"
      by (simp add: mark_scanned.simps [of i e k pe])
    then show ?thesis by (simp add: pe_rel_refl)
  next
    case True
    with "1.prems" obtain pe1 where s: "\<not> sint i < 0" and o: "flag_or pe k i INSTR_SCANNED = Inr pe1"
      and ne: "i \<noteq> 0x7FFFFFFF" and r: "mark_scanned (i + 1) e k pe1 = Inr (pe', j)"
      by (auto simp: mark_scanned.simps [of i e k pe] split: if_splits sum.splits)
    from flag_or_rel [OF o] "1.IH" [OF True s o ne r]
    show ?thesis
      by (rule pe_rel_trans) auto
  qed
qed

section \<open>The cases of one step of the scanner\<close>

declare scan_segment.simps [simp del] scan_loop.simps [simp del]

lemma scan_segment_SucE:
  assumes "scan_segment (Suc n) D f ip w = Some (Inr w')"
  obtains (unmapped) "addr2section ip (image w) = None" "w' = warn (NotInImage ip) (tick w)"
  | (mapped) k fl where "addr2section ip (image w) = Some k"
      "flag_get (image w) k (ip - address (sections (image w) ! k)) = Inr fl"
      "scan_loop n D f k ip
         (if fl AND (INSTR_VALID OR INSTR_SCANNED) = INSTR_SCANNED
          then warn (NotBeginInstr ip) (tick w) else tick w) = Some (Inr w')"
  using assms by (auto simp: scan_segment.simps split: option.splits sum.splits)

lemma branch_result_Inr:
  assumes "(if b then (case a of
                         Some t \<Rightarrow> (case g t of Inl x \<Rightarrow> Some (Inl x) | Inr pe2 \<Rightarrow> h pe2)
                       | None \<Rightarrow> Some (Inr u))
            else Some (Inr v)) = Some (Inr w2)"
  shows "(\<not> b \<and> w2 = v) \<or> (b \<and> a = None \<and> w2 = u) \<or>
         (\<exists>t pe2. b \<and> a = Some t \<and> g t = Inr pe2 \<and> h pe2 = Some (Inr w2))"
proof (cases b)
  case False
  with assms show ?thesis by simp
next
  case True
  show ?thesis
  proof (cases a)
    case None
    with True assms show ?thesis by simp
  next
    case (Some t)
    show ?thesis
    proof (cases "g t")
      case (Inl x)
      with True Some assms show ?thesis by simp
    next
      case (Inr pe2)
      with True Some assms show ?thesis by simp
    qed
  qed
qed

lemma branch_result_None:
  assumes "(if b then (case a of
                         Some t \<Rightarrow> (case g t of Inl x \<Rightarrow> Some (Inl x) | Inr pe2 \<Rightarrow> h pe2)
                       | None \<Rightarrow> Some (Inr u))
            else Some (Inr v)) = None"
  shows "\<exists>t pe2. b \<and> a = Some t \<and> g t = Inr pe2 \<and> h pe2 = None"
proof (cases b)
  case False
  with assms show ?thesis by simp
next
  case True
  show ?thesis
  proof (cases a)
    case None
    with True assms show ?thesis by simp
  next
    case (Some t)
    show ?thesis
    proof (cases "g t")
      case (Inl x)
      with True Some assms show ?thesis by simp
    next
      case (Inr pe2)
      with True Some assms show ?thesis by simp
    qed
  qed
qed

lemma scan_loop_SucE:
  fixes w :: world and k :: nat and ip :: dword
  defines "sec \<equiv> sections (image w) ! k"
  defines "relip \<equiv> ip - address sec"
  assumes run: "scan_loop (Suc n) D f k ip w = Some (Inr w')"
  obtains
    (finish) "\<not> relip < length_sec sec" "w' = warn (EndOfSection ip) w"
  | (seen) fl where "relip < length_sec sec" "flag_get (image w) k relip = Inr fl"
      "fl AND INSTR_SCANNED \<noteq> 0" "w' = tick w"
  | (over) fl len ins pe1 i where "relip < length_sec sec" "flag_get (image w) k relip = Inr fl"
      "fl AND INSTR_SCANNED = 0" "D ip (read_window f sec relip) = (len, ins)"
      "mark_instr (image w) k relip len = Inr (pe1, i)"
      "i < ip + len" "i = min_alloc sec"
      "w' = warn (EndOfSection ip) (tick (w\<lparr>image := pe1\<rparr>))"
  | (go) fl len ins pe1 i w2 where "relip < length_sec sec" "flag_get (image w) k relip = Inr fl"
      "fl AND INSTR_SCANNED = 0" "D ip (read_window f sec relip) = (len, ins)"
      "mark_instr (image w) k relip len = Inr (pe1, i)"
      "\<not> (i < ip + len \<and> i = min_alloc sec)"
      "(\<not> op_branch ins \<and> w2 = tick (w\<lparr>image := pe1\<rparr>)) \<or>
       (op_branch ins \<and> addr2section (arg0 ins) pe1 = None \<and>
          w2 = warn (BranchNotInImage ip (op_name ins) (arg0 ins)) (tick (w\<lparr>image := pe1\<rparr>))) \<or>
       (\<exists>t pe2. op_branch ins \<and> addr2section (arg0 ins) pe1 = Some t \<and>
          flag_or pe1 t (arg0 ins - address (sections pe1 ! t))
            (if op_name ins = ''call'' then INSTR_FUNC else INSTR_JUMP) = Inr pe2 \<and>
          scan_segment n D f (arg0 ins) (tick (w\<lparr>image := pe2\<rparr>)) = Some (Inr w2))"
      "(op_stop ins \<and> w' = w2) \<or>
       (\<not> op_stop ins \<and> scan_loop n D f k (ip + len) w2 = Some (Inr w'))"
proof (cases "relip < length_sec sec")
  case False
  with run have "w' = warn (EndOfSection ip) w"
    by (simp add: scan_loop.simps sec_def relip_def Let_def)
  with False show ?thesis by (rule finish)
next
  case lt: True
  with run obtain fl where fl: "flag_get (image w) k relip = Inr fl"
    by (auto simp: scan_loop.simps sec_def relip_def Let_def split: sum.splits)
  show ?thesis
  proof (cases "fl AND INSTR_SCANNED = 0")
    case False
    with run lt fl have "w' = tick w"
      by (simp add: scan_loop.simps sec_def relip_def Let_def)
    with lt fl False show ?thesis by (rule seen)
  next
    case un: True
    obtain len ins where d: "D ip (read_window f sec relip) = (len, ins)"
      by (cases "D ip (read_window f sec relip)")
    from run lt fl un d obtain pe1 i where m: "mark_instr (image w) k relip len = Inr (pe1, i)"
      by (auto simp: scan_loop.simps sec_def relip_def Let_def split: sum.splits)
    let ?w1 = "tick (w\<lparr>image := pe1\<rparr>)"
    define br where "br =
               (if op_branch ins then
                 (case addr2section (arg0 ins) pe1 of
                    Some t \<Rightarrow>
                      (case flag_or pe1 t (arg0 ins - address (sections pe1 ! t))
                              (if op_name ins = ''call'' then INSTR_FUNC else INSTR_JUMP) of
                         Inl x \<Rightarrow> Some (Inl x)
                       | Inr pe2 \<Rightarrow> scan_segment n D f (arg0 ins) (tick (w\<lparr>image := pe2\<rparr>)))
                  | None \<Rightarrow> Some (Inr (warn (BranchNotInImage ip (op_name ins) (arg0 ins)) ?w1)))
               else Some (Inr ?w1))"
    have step: "scan_loop (Suc n) D f k ip w =
        (if i < ip + len \<and> i = min_alloc sec then Some (Inr (warn (EndOfSection ip) ?w1))
         else (case br of
                 None \<Rightarrow> None
               | Some (Inl x) \<Rightarrow> Some (Inl x)
               | Some (Inr w2) \<Rightarrow>
                   if op_stop ins then Some (Inr w2) else scan_loop n D f k (ip + len) w2))"
      unfolding br_def using lt fl un d m
      by (simp add: scan_loop.simps sec_def relip_def Let_def split del: if_split
            cong: if_weak_cong option.case_cong_weak sum.case_cong_weak)
    show ?thesis
    proof (cases "i < ip + len \<and> i = min_alloc sec")
      case True
      have "scan_loop (Suc n) D f k ip w = Some (Inr (warn (EndOfSection ip) ?w1))"
        unfolding step by (rule if_P [OF True])
      with run have e: "w' = warn (EndOfSection ip) ?w1"
        by simp
      from True have c1: "i < ip + len" and c2: "i = min_alloc sec"
        by blast+
      from lt fl un d m c1 c2 e show ?thesis by (rule over)
    next
      case False
      have "scan_loop (Suc n) D f k ip w =
          (case br of
             None \<Rightarrow> None
           | Some (Inl x) \<Rightarrow> Some (Inl x)
           | Some (Inr w2) \<Rightarrow>
               if op_stop ins then Some (Inr w2) else scan_loop n D f k (ip + len) w2)"
        using False by (simp only: step if_False)
      with run obtain w2 where br: "br = Some (Inr w2)"
        and rest: "(if op_stop ins then Some (Inr w2) else scan_loop n D f k (ip + len) w2)
                     = Some (Inr w')"
        by (cases br) (auto split: sum.splits)
      from br [unfolded br_def] have b: "(\<not> op_branch ins \<and> w2 = ?w1) \<or>
         (op_branch ins \<and> addr2section (arg0 ins) pe1 = None \<and>
            w2 = warn (BranchNotInImage ip (op_name ins) (arg0 ins)) ?w1) \<or>
         (\<exists>t pe2. op_branch ins \<and> addr2section (arg0 ins) pe1 = Some t \<and>
            flag_or pe1 t (arg0 ins - address (sections pe1 ! t))
              (if op_name ins = ''call'' then INSTR_FUNC else INSTR_JUMP) = Inr pe2 \<and>
            scan_segment n D f (arg0 ins) (tick (w\<lparr>image := pe2\<rparr>)) = Some (Inr w2))"
        by (rule branch_result_Inr)
      from rest have r: "(op_stop ins \<and> w' = w2) \<or>
         (\<not> op_stop ins \<and> scan_loop n D f k (ip + len) w2 = Some (Inr w'))"
        by (auto split: if_splits)
      from lt fl un d m False b r show ?thesis by (rule go)
    qed
  qed
qed


lemma scan_segment_Suc_NoneE:
  assumes "scan_segment (Suc n) D f ip w = None"
  obtains k fl where "addr2section ip (image w) = Some k"
      "flag_get (image w) k (ip - address (sections (image w) ! k)) = Inr fl"
      "scan_loop n D f k ip
         (if fl AND (INSTR_VALID OR INSTR_SCANNED) = INSTR_SCANNED
          then warn (NotBeginInstr ip) (tick w) else tick w) = None"
  using assms by (auto simp: scan_segment.simps split: option.splits sum.splits)

lemma scan_loop_Suc_NoneE:
  fixes w :: world and k :: nat and ip :: dword
  defines "sec \<equiv> sections (image w) ! k"
  defines "relip \<equiv> ip - address sec"
  assumes run: "scan_loop (Suc n) D f k ip w = None"
  obtains
    (nested) fl len ins pe1 i t pe2 where "relip < length_sec sec"
      "flag_get (image w) k relip = Inr fl"
      "fl AND INSTR_SCANNED = 0" "D ip (read_window f sec relip) = (len, ins)"
      "mark_instr (image w) k relip len = Inr (pe1, i)"
      "addr2section (arg0 ins) pe1 = Some t"
      "flag_or pe1 t (arg0 ins - address (sections pe1 ! t))
         (if op_name ins = ''call'' then INSTR_FUNC else INSTR_JUMP) = Inr pe2"
      "scan_segment n D f (arg0 ins) (tick (w\<lparr>image := pe2\<rparr>)) = None"
  | (rest) fl len ins pe1 i w2 where "relip < length_sec sec"
      "flag_get (image w) k relip = Inr fl"
      "fl AND INSTR_SCANNED = 0" "D ip (read_window f sec relip) = (len, ins)"
      "mark_instr (image w) k relip len = Inr (pe1, i)"
      "(\<not> op_branch ins \<and> w2 = tick (w\<lparr>image := pe1\<rparr>)) \<or>
       (op_branch ins \<and> addr2section (arg0 ins) pe1 = None \<and>
          w2 = warn (BranchNotInImage ip (op_name ins) (arg0 ins)) (tick (w\<lparr>image := pe1\<rparr>))) \<or>
       (\<exists>t pe2. op_branch ins \<and> addr2section (arg0 ins) pe1 = Some t \<and>
          flag_or pe1 t (arg0 ins - address (sections pe1 ! t))
            (if op_name ins = ''call'' then INSTR_FUNC else INSTR_JUMP) = Inr pe2 \<and>
          scan_segment n D f (arg0 ins) (tick (w\<lparr>image := pe2\<rparr>)) = Some (Inr w2))"
      "scan_loop n D f k (ip + len) w2 = None"
proof -
  from run have lt: "relip < length_sec sec"
    by (auto simp: scan_loop.simps sec_def relip_def Let_def split: if_splits)
  with run obtain fl where fl: "flag_get (image w) k relip = Inr fl"
    by (auto simp: scan_loop.simps sec_def relip_def Let_def split: sum.splits)
  from run lt fl have un: "fl AND INSTR_SCANNED = 0"
    by (auto simp: scan_loop.simps sec_def relip_def Let_def split: if_splits)
  obtain len ins where d: "D ip (read_window f sec relip) = (len, ins)"
    by (cases "D ip (read_window f sec relip)")
  from run lt fl un d obtain pe1 i where m: "mark_instr (image w) k relip len = Inr (pe1, i)"
    by (auto simp: scan_loop.simps sec_def relip_def Let_def split: sum.splits)
  let ?w1 = "tick (w\<lparr>image := pe1\<rparr>)"
  define br where "br =
               (if op_branch ins then
                 (case addr2section (arg0 ins) pe1 of
                    Some t \<Rightarrow>
                      (case flag_or pe1 t (arg0 ins - address (sections pe1 ! t))
                              (if op_name ins = ''call'' then INSTR_FUNC else INSTR_JUMP) of
                         Inl x \<Rightarrow> Some (Inl x)
                       | Inr pe2 \<Rightarrow> scan_segment n D f (arg0 ins) (tick (w\<lparr>image := pe2\<rparr>)))
                  | None \<Rightarrow> Some (Inr (warn (BranchNotInImage ip (op_name ins) (arg0 ins)) ?w1)))
               else Some (Inr ?w1))"
  have step: "scan_loop (Suc n) D f k ip w =
      (if i < ip + len \<and> i = min_alloc sec then Some (Inr (warn (EndOfSection ip) ?w1))
       else (case br of
               None \<Rightarrow> None
             | Some (Inl x) \<Rightarrow> Some (Inl x)
             | Some (Inr w2) \<Rightarrow>
                 if op_stop ins then Some (Inr w2) else scan_loop n D f k (ip + len) w2))"
    unfolding br_def using lt fl un d m
      by (simp add: scan_loop.simps sec_def relip_def Let_def split del: if_split
            cong: if_weak_cong option.case_cong_weak sum.case_cong_weak)
  from run have "\<not> (i < ip + len \<and> i = min_alloc sec)"
    unfolding step by (auto split: if_splits)
  then have "scan_loop (Suc n) D f k ip w =
      (case br of
         None \<Rightarrow> None
       | Some (Inl x) \<Rightarrow> Some (Inl x)
       | Some (Inr w2) \<Rightarrow>
           if op_stop ins then Some (Inr w2) else scan_loop n D f k (ip + len) w2)"
    by (simp only: step if_False)
  with run have "br = None \<or> (\<exists>w2. br = Some (Inr w2) \<and> scan_loop n D f k (ip + len) w2 = None)"
    by (cases br) (auto split: sum.splits if_splits)
  then show ?thesis
  proof
    assume "br = None"
    from branch_result_None [OF this [unfolded br_def]] obtain t pe2
      where t: "addr2section (arg0 ins) pe1 = Some t"
        and o: "flag_or pe1 t (arg0 ins - address (sections pe1 ! t))
         (if op_name ins = ''call'' then INSTR_FUNC else INSTR_JUMP) = Inr pe2"
        and s: "scan_segment n D f (arg0 ins) (tick (w\<lparr>image := pe2\<rparr>)) = None"
      by blast
    from lt fl un d m t o s show ?thesis by (rule nested)
  next
    assume "\<exists>w2. br = Some (Inr w2) \<and> scan_loop n D f k (ip + len) w2 = None"
    then obtain w2 where br: "br = Some (Inr w2)" and r: "scan_loop n D f k (ip + len) w2 = None"
      by blast
    from br [unfolded br_def] have b: "(\<not> op_branch ins \<and> w2 = ?w1) \<or>
       (op_branch ins \<and> addr2section (arg0 ins) pe1 = None \<and>
          w2 = warn (BranchNotInImage ip (op_name ins) (arg0 ins)) ?w1) \<or>
       (\<exists>t pe2. op_branch ins \<and> addr2section (arg0 ins) pe1 = Some t \<and>
          flag_or pe1 t (arg0 ins - address (sections pe1 ! t))
            (if op_name ins = ''call'' then INSTR_FUNC else INSTR_JUMP) = Inr pe2 \<and>
          scan_segment n D f (arg0 ins) (tick (w\<lparr>image := pe2\<rparr>)) = Some (Inr w2))"
      by (rule branch_result_Inr)
    from lt fl un d m b r show ?thesis by (rule rest)
  qed
qed

section \<open>The scanner only adds bits\<close>

lemma world_simps [simp]:
  "image (tick w) = image w" "stderr (tick w) = stderr w" "stdout (tick w) = stdout w"
  "steps (tick w) = Suc (steps w)"
  "image (warn x w) = image w" "stderr (warn x w) = stderr w @ [x]" "stdout (warn x w) = stdout w"
  "steps (warn x w) = steps w"
  "image (emit e w) = image w" "stderr (emit e w) = stderr w" "stdout (emit e w) = stdout w @ [e]"
  "steps (emit e w) = steps w"
  by (simp_all add: tick_def warn_def emit_def)

lemma bits_grow_refl: "bits_grow x x"
  by (simp add: bits_grow_def)

lemma and_sub_trans:
  fixes x y z :: byte
  assumes "x AND y = x" and "y AND z = y"
  shows "x AND z = x"
proof -
  have "x AND z = (x AND y) AND z" by (simp only: assms(1))
  also have "\<dots> = x AND (y AND z)" by (simp only: and.assoc)
  also have "\<dots> = x" by (simp only: assms)
  finally show ?thesis .
qed

lemma bits_grow_trans: "bits_grow x y \<Longrightarrow> bits_grow y z \<Longrightarrow> bits_grow x z"
  unfolding bits_grow_def
  by (blast intro: and_sub_trans trans)

lemma and_or_self: "(x::byte) AND (x OR m) = x"
  by (rule bit_eqI) (auto simp: bit_and_iff bit_or_iff)

lemma or_and_mask:
  fixes x m N :: byte
  assumes "m AND N = 0"
  shows "(x OR m) AND N = x AND N"
proof -
  have "(x OR m) AND N = (x AND N) OR (m AND N)"
    by (rule bit_eqI) (auto simp: bit_and_iff bit_or_iff)
  with assms show ?thesis by simp
qed

lemma bits_grow_or:
  assumes "m \<in> {INSTR_VALID, INSTR_SCANNED, INSTR_FUNC, INSTR_JUMP}"
  shows "bits_grow x (x OR m)"
proof -
  have "m AND NOT (INSTR_VALID OR INSTR_SCANNED OR INSTR_FUNC OR INSTR_JUMP) = 0"
    using assms by (auto simp: INSTR_VALID_def INSTR_SCANNED_def INSTR_FUNC_def INSTR_JUMP_def)
  then show ?thesis
    unfolding bits_grow_def
    by (simp only: and_or_self or_and_mask)
qed

lemma grows_refl: "grows pe pe"
  by (simp add: grows_def pe_rel_refl bits_grow_refl)

lemma grows_trans: "grows a b \<Longrightarrow> grows b c \<Longrightarrow> grows a c"
  unfolding grows_def by (erule pe_rel_trans, assumption) (rule bits_grow_trans)

lemma flag_or_grows:
  assumes "flag_or pe k i m = Inr pe'"
    and "m \<in> {INSTR_VALID, INSTR_SCANNED, INSTR_FUNC, INSTR_JUMP}"
  shows "grows pe pe'"
  unfolding grows_def
  using flag_or_rel [OF assms(1)]
  by (rule pe_rel_mono) (auto simp: bits_grow_refl bits_grow_or [OF assms(2)])

lemma mark_scanned_grows: "mark_scanned i e k pe = Inr (pe', j) \<Longrightarrow> grows pe pe'"
  unfolding grows_def
  by (drule mark_scanned_rel, erule pe_rel_mono) (auto simp: bits_grow_refl bits_grow_or)

lemma mark_instr_grows:
  assumes "mark_instr pe k relip len = Inr (pe', i)"
  shows "grows pe pe'"
proof -
  from assms obtain pe1 where a: "flag_or pe k relip INSTR_VALID = Inr pe1"
    and b: "mark_scanned relip (relip + len) k pe1 = Inr (pe', i)"
    by (auto simp: mark_instr_def split: sum.splits)
  from flag_or_grows [OF a] mark_scanned_grows [OF b] show ?thesis
    by (auto intro: grows_trans)
qed

lemma scan_grows_aux:
  "(\<forall>ip w w'. scan_segment n D f ip w = Some (Inr w') \<longrightarrow>
       grows (image w) (image w') \<and> stdout w' = stdout w) \<and>
   (\<forall>k ip w w'. scan_loop n D f k ip w = Some (Inr w') \<longrightarrow>
       grows (image w) (image w') \<and> stdout w' = stdout w)"
proof (induction n)
  case 0
  show ?case by (simp add: scan_segment.simps scan_loop.simps)
next
  case (Suc n)
  then have seg: "\<And>ip w w'. scan_segment n D f ip w = Some (Inr w') \<Longrightarrow>
       grows (image w) (image w') \<and> stdout w' = stdout w"
    and loop: "\<And>k ip w w'. scan_loop n D f k ip w = Some (Inr w') \<Longrightarrow>
       grows (image w) (image w') \<and> stdout w' = stdout w"
    by blast+
  have "grows (image w) (image w') \<and> stdout w' = stdout w"
    if run: "scan_segment (Suc n) D f ip w = Some (Inr w')" for ip w w'
    using run
  proof (cases rule: scan_segment_SucE)
    case unmapped
    then show ?thesis by (simp add: grows_refl)
  next
    case (mapped k fl)
    from loop [OF mapped(3)] show ?thesis
      by (simp split: if_splits)
  qed
  moreover have "grows (image w) (image w') \<and> stdout w' = stdout w"
    if run: "scan_loop (Suc n) D f k ip w = Some (Inr w')" for k ip w w'
    using run
  proof (cases rule: scan_loop_SucE)
    case finish
    then show ?thesis by (simp add: grows_refl)
  next
    case (seen fl)
    then show ?thesis by (simp add: grows_refl)
  next
    case (over fl len ins pe1 i)
    then show ?thesis by (simp add: mark_instr_grows)
  next
    case (go fl len ins pe1 i w2)
    from go(5) have g1: "grows (image w) pe1"
      by (rule mark_instr_grows)
    from go(7) have g2: "grows pe1 (image w2) \<and> stdout w2 = stdout w"
    proof (elim disjE conjE exE)
      fix t pe2
      assume o: "flag_or pe1 t (arg0 ins - address (sections pe1 ! t))
            (if op_name ins = ''call'' then INSTR_FUNC else INSTR_JUMP) = Inr pe2"
        and s: "scan_segment n D f (arg0 ins) (tick (w\<lparr>image := pe2\<rparr>)) = Some (Inr w2)"
      from o have "grows pe1 pe2"
        by (rule flag_or_grows) simp
      with seg [OF s] show ?thesis
        by (auto intro: grows_trans)
    qed (simp_all add: grows_refl)
    from go(8) have g3: "grows (image w2) (image w') \<and> stdout w' = stdout w2"
    proof (elim disjE conjE)
      assume "scan_loop n D f k (ip + len) w2 = Some (Inr w')"
      from loop [OF this] show ?thesis .
    qed (simp add: grows_refl)
    from g1 g2 g3 show ?thesis
      by (auto intro: grows_trans)
  qed
  ultimately show ?case by blast
qed

lemma scan_segment_grows:
  "scan_segment n D f ip w = Some (Inr w') \<Longrightarrow> grows (image w) (image w') \<and> stdout w' = stdout w"
  using scan_grows_aux by blast

lemma scan_loop_grows:
  "scan_loop n D f k ip w = Some (Inr w') \<Longrightarrow> grows (image w) (image w') \<and> stdout w' = stdout w"
  using scan_grows_aux by blast


lemma scan_exports_grows:
  "scan_exports n D f es w = Some (Inr w') \<Longrightarrow> grows (image w) (image w') \<and> stdout w' = stdout w"
proof (induction es arbitrary: w)
  case Nil
  then show ?case by (simp add: grows_refl)
next
  case (Cons e es)
  from Cons.prems obtain w1 where a: "scan_segment n D f (export.address e) w = Some (Inr w1)"
    and b: "scan_exports n D f es w1 = Some (Inr w')"
    by (auto split: option.splits sum.splits)
  from scan_segment_grows [OF a] Cons.IH [OF b] show ?case
    by (auto intro: grows_trans)
qed

lemma read_sections_grows:
  assumes "read_sections n D f w = Some (Inr w')"
  shows "grows (image w) (image w') \<and> stdout w' = stdout w"
proof -
  from assms obtain w1 where a: "scan_exports n D f (exports (image w)) w = Some (Inr w1)"
    and b: "(if Characteristics (image w1) AND 0x2000 = 0
             then scan_segment n D f (AddressOfEntryPoint (image w1)) w1
             else Some (Inr w1)) = Some (Inr w')"
    by (auto simp: read_sections_def split: option.splits sum.splits)
  from b have "grows (image w1) (image w') \<and> stdout w' = stdout w1"
    by (auto simp: grows_refl dest: scan_segment_grows split: if_splits)
  with scan_exports_grows [OF a] show ?thesis
    by (auto intro: grows_trans)
qed


lemma scanned_not_valid:
  assumes "fl AND (INSTR_VALID OR INSTR_SCANNED) = INSTR_SCANNED"
  shows "fl AND INSTR_SCANNED \<noteq> 0"
proof -
  have "fl AND INSTR_SCANNED = (fl AND (INSTR_VALID OR INSTR_SCANNED)) AND INSTR_SCANNED"
    by (simp add: and.assoc INSTR_VALID_def INSTR_SCANNED_def)
  also have "\<dots> = INSTR_SCANNED"
    by (simp only: assms and.idem)
  finally show ?thesis
    by (simp add: INSTR_SCANNED_def)
qed

section \<open>The renderer only reads the image\<close>

declare print_loop.simps [simp del]

lemma find_valid_image:
  "find_valid all f k relip w = Inr (r, w1) \<Longrightarrow> image w1 = image w \<and> stderr w1 = stderr w"
  by (auto simp: find_valid_def Let_def split: if_splits sum.splits)

lemma print_one_image:
  "print_one D f k relip w = Inr (len, w2) \<Longrightarrow> image w2 = image w \<and> stderr w2 = stderr w"
  by (auto simp: print_one_def Let_def split: if_splits sum.splits)

lemma print_loop_image:
  "print_loop n all D f k relip w = Some (Inr w') \<Longrightarrow> image w' = image w \<and> stderr w' = stderr w"
proof (induction n arbitrary: relip w)
  case 0
  then show ?case by (simp add: print_loop.simps)
next
  case (Suc n)
  let ?sec = "sections (image w) ! k"
  show ?case
  proof (cases "relip < length_sec ?sec")
    case False
    with Suc.prems show ?thesis
      by (auto simp: print_loop.simps Let_def)
  next
    case lt: True
    with Suc.prems obtain fl where fl: "flag_get (image w) k relip = Inr fl"
      by (auto simp: print_loop.simps Let_def split: sum.splits)
    define fv where "fv = (if fl AND INSTR_VALID = 0 then find_valid all f k relip w
                           else Inr (relip, w))"
    from Suc.prems lt fl obtain relip1 w1 where fv: "fv = Inr (relip1, w1)"
      by (cases fv) (auto simp: print_loop.simps Let_def fv_def)
    from fv have i1: "image w1 = image w \<and> stderr w1 = stderr w"
      by (auto simp: fv_def dest: find_valid_image split: if_splits)
    have step: "print_loop (Suc n) all D f k relip w =
        (if relip1 \<ge> length_sec ?sec \<or> relip1 \<ge> min_alloc ?sec then Some (Inr w1)
         else (case print_one D f k relip1 w1 of
                 Inl x \<Rightarrow> Some (Inl x)
               | Inr (len, w2) \<Rightarrow> print_loop n all D f k (relip1 + len) w2))"
      using lt fl fv [unfolded fv_def]
      by (simp add: print_loop.simps Let_def split del: if_split cong: if_weak_cong sum.case_cong_weak)
    show ?thesis
    proof (cases "relip1 \<ge> length_sec ?sec \<or> relip1 \<ge> min_alloc ?sec")
      case True
      with Suc.prems step i1 show ?thesis by simp
    next
      case False
      with Suc.prems step obtain len w2 where p: "print_one D f k relip1 w1 = Inr (len, w2)"
        and r: "print_loop n all D f k (relip1 + len) w2 = Some (Inr w')"
        by (auto split: sum.splits)
      from Suc.IH [OF r] print_one_image [OF p] i1 show ?thesis by simp
    qed
  qed
qed

section \<open>Evaluation on the concrete images\<close>

lemmas scan_eval =
  scan_segment.simps scan_loop.simps mark_scanned.simps addr2section_def flag_get_def flag_or_def
  mark_instr_def read_window_def INSTR_SCANNED_def INSTR_VALID_def INSTR_JUMP_def INSTR_FUNC_def
  MAX_INSTR_def tick_def warn_def Let_def

lemmas print_eval =
  print_disassembly_def print_loop.simps find_valid_def print_one_def print_pe_instr_def
  skip_zeroes.simps skip_invalid.simps read_byte_def get_export_name_def emit_def

lemmas loop_eval = jmp_self_def loop_section_def loop_image_def loop_file_def start_world_def

lemma loop_scan:
  "scan_segment (Suc (Suc (Suc (Suc 0)))) jmp_self loop_file 0x1000 (start_world loop_image) =
     Some (Inr loop_scanned)"
  by (simp add: scan_eval loop_eval loop_scanned_def)

lemma loop_print:
  "print_disassembly (Suc (Suc (Suc 0))) False jmp_self loop_file 0 loop_scanned =
     Some (Inr (loop_scanned\<lparr>stdout := loop_listing\<rparr>))"
  by (simp add: print_eval scan_eval loop_eval loop_scanned_def loop_listing_def)


lemma decoder_ok_jmp_self: "decoder_ok jmp_self"
  by (simp add: decoder_ok_def jmp_self_def MAX_INSTR_def)

lemma loop_reachable: "reachable jmp_self loop_file loop_scanned"
proof -
  have "image_ok (image (start_world loop_image))"
    by (simp add: image_ok_def loop_eval)
  moreover have "all_empty (image (start_world loop_image))"
    by (simp add: all_empty_def loop_eval)
  ultimately have "reachable jmp_self loop_file (start_world loop_image)"
    by (rule reachable.start)
  then show ?thesis
    using loop_scan by (rule reachable.call)
qed


lemma export_scan:
  "read_sections (Suc (Suc (Suc (Suc 0)))) jmp_self loop_file (start_world export_image)
     = Some (Inr export_scanned)"
  by (simp add: read_sections_def scan_eval loop_eval export_image_def export_scanned_def)

section \<open>What marking an instruction does\<close>

lemma pe_rel_sections_set:
  assumes "pe_rel R pe pe'" and "s' \<in> set (sections pe')"
  obtains s where "s \<in> set (sections pe)" "sec_rel R s s'"
proof -
  from assms(2) obtain k where k: "k < length (sections pe')" and s': "s' = sections pe' ! k"
    by (auto simp: in_set_conv_nth)
  from assms(1) k have "k < length (sections pe)"
    by (simp add: pe_rel_fields)
  with assms(1) s' have "sections pe ! k \<in> set (sections pe)" "sec_rel R (sections pe ! k) s'"
    by (simp_all add: pe_rel_section)
  then show ?thesis by (rule that)
qed

lemma image_ok_rel: "image_ok pe \<Longrightarrow> pe_rel R pe pe' \<Longrightarrow> image_ok pe'"
  unfolding image_ok_def
  by (auto elim!: pe_rel_sections_set simp: sec_rel_fields)

lemma image_ok_grows: "image_ok pe \<Longrightarrow> grows pe pe' \<Longrightarrow> image_ok pe'"
  unfolding grows_def by (rule image_ok_rel)

lemma grows_length: "grows pe pe' \<Longrightarrow> length (sections pe') = length (sections pe)"
  unfolding grows_def by (rule pe_rel_fields)

lemma valid_scanned_nth:
  "valid_scanned pe \<longleftrightarrow>
     (\<forall>k < length (sections pe). \<forall>j < length (instr_flags (sections pe ! k)).
        instr_flags (sections pe ! k) ! j AND INSTR_VALID \<noteq> 0 \<longrightarrow>
        instr_flags (sections pe ! k) ! j AND INSTR_SCANNED \<noteq> 0)"
  unfolding valid_scanned_def
  by (metis in_set_conv_nth nth_mem)

lemma flag_or_other:
  assumes "flag_or pe k i m = Inr pe'" and "k' \<noteq> k \<or> j \<noteq> unat i"
  shows "instr_flags (sections pe' ! k') ! j = instr_flags (sections pe ! k') ! j"
proof (cases "k < length (sections pe)")
  case False
  with assms(1) have "pe' = pe"
    by (auto simp: flag_or_def Let_def list_update_beyond not_less split: if_splits)
  then show ?thesis by simp
next
  case True
  with assms show ?thesis
    by (auto simp: flag_or_def Let_def nth_list_update split: if_splits)
qed


lemma or_and_same: "((x::byte) OR m) AND m = m"
  by (rule bit_eqI) (auto simp: bit_and_iff bit_or_iff)

lemma scanned_or: "(x OR INSTR_SCANNED) AND INSTR_SCANNED \<noteq> 0"
  by (simp add: or_and_same) (simp add: INSTR_SCANNED_def)

lemma valid_or_scanned: "(x OR INSTR_SCANNED) AND INSTR_VALID = x AND INSTR_VALID"
  by (rule or_and_mask) (simp add: INSTR_SCANNED_def INSTR_VALID_def)

lemma no_wrap:
  fixes relip len ma :: dword
  assumes "unat relip < unat ma" and "unat ma < 2 ^ 31" and "0 < len" and "unat len \<le> MAX_INSTR"
  shows "relip < relip + len"
proof -
  from assms have "unat relip + unat len < 2 ^ 32"
    by (simp add: MAX_INSTR_def)
  then have "unat (relip + len) = unat relip + unat len"
    using unat_add_lem [of relip len] by simp
  moreover from assms(3) have "0 < unat len"
    by (simp add: word_less_nat_alt)
  ultimately show ?thesis
    by (simp add: word_less_nat_alt)
qed

lemma mark_scanned_first:
  assumes r: "mark_scanned relip (relip + len) k pe1 = Inr (pe', i)"
    and k: "k < length (sections pe1)"
    and b: "unat relip < length (instr_flags (sections pe1 ! k))"
    and sz: "length (instr_flags (sections pe1 ! k)) = unat (min_alloc (sections pe1 ! k))"
    and sm: "unat (min_alloc (sections pe1 ! k)) < 2 ^ 31"
    and l0: "0 < len" and l1: "unat len \<le> MAX_INSTR"
  shows "instr_flags (sections pe' ! k) ! unat relip AND INSTR_SCANNED \<noteq> 0"
proof -
  from b sz have um: "unat relip < unat (min_alloc (sections pe1 ! k))"
    by simp
  then have lt2: "relip < min_alloc (sections pe1 ! k)"
    by (simp add: word_less_nat_alt)
  from um sm l0 l1 have lt1: "relip < relip + len"
    by (rule no_wrap)
  from r lt1 lt2 obtain pe2 where o: "flag_or pe1 k relip INSTR_SCANNED = Inr pe2"
    and r2: "mark_scanned (relip + 1) (relip + len) k pe2 = Inr (pe', i)"
    by (auto simp: mark_scanned.simps [of relip] split: if_splits sum.splits)
  let ?x = "instr_flags (sections pe1 ! k) ! unat relip"
  from flag_or_byte [OF o k]
  have b2: "instr_flags (sections pe2 ! k) ! unat relip = ?x OR INSTR_SCANNED"
    by simp
  from flag_or_rel [OF o] k b have k2: "k < length (sections pe2)"
    and j2: "unat relip < length (instr_flags (sections pe2 ! k))"
    by (simp_all add: pe_rel_fields sec_rel_fields [OF pe_rel_section])
  from pe_rel_byte [OF mark_scanned_rel [OF r2] k2 j2]
  have "instr_flags (sections pe' ! k) ! unat relip = instr_flags (sections pe2 ! k) ! unat relip \<or>
        instr_flags (sections pe' ! k) ! unat relip
          = instr_flags (sections pe2 ! k) ! unat relip OR INSTR_SCANNED" .
  then have "instr_flags (sections pe' ! k) ! unat relip = ?x OR INSTR_SCANNED"
    unfolding b2 by (auto simp: or.assoc)
  then show ?thesis
    by (simp only: scanned_or not_False_eq_True)
qed

lemma mark_instr_valid_scanned:
  assumes m: "mark_instr pe k relip len = Inr (pe', i)"
    and ok: "image_ok pe" and k: "k < length (sections pe)"
    and l0: "0 < len" and l1: "unat len \<le> MAX_INSTR"
  shows "instr_flags (sections pe' ! k) ! unat relip AND INSTR_SCANNED \<noteq> 0"
    and "valid_scanned pe \<Longrightarrow> valid_scanned pe'"
proof -
  from m obtain pe1 where o: "flag_or pe k relip INSTR_VALID = Inr pe1"
    and r: "mark_scanned relip (relip + len) k pe1 = Inr (pe', i)"
    by (auto simp: mark_instr_def split: sum.splits)
  note rel1 = flag_or_rel [OF o]
  from rel1 k have k1: "k < length (sections pe1)"
    by (simp add: pe_rel_fields)
  from image_ok_rel [OF ok rel1] k1
  have sz: "length (instr_flags (sections pe1 ! k)) = unat (min_alloc (sections pe1 ! k))"
    and sm: "unat (min_alloc (sections pe1 ! k)) < 2 ^ 31"
    by (simp_all add: image_ok_def)
  from flag_or_byte(1) [OF o k] rel1 k
  have b: "unat relip < length (instr_flags (sections pe1 ! k))"
    by (simp add: sec_rel_fields [OF pe_rel_section])
  from mark_scanned_first [OF r k1 b sz sm l0 l1]
  show first: "instr_flags (sections pe' ! k) ! unat relip AND INSTR_SCANNED \<noteq> 0" .
  note rel2 = mark_scanned_rel [OF r]
  show "valid_scanned pe'" if vs: "valid_scanned pe"
    unfolding valid_scanned_nth
  proof (intro allI impI)
    fix k' j
    assume k': "k' < length (sections pe')" and j: "j < length (instr_flags (sections pe' ! k'))"
      and v: "instr_flags (sections pe' ! k') ! j AND INSTR_VALID \<noteq> 0"
    from k' rel2 have k'1: "k' < length (sections pe1)"
      by (simp add: pe_rel_fields)
    with rel1 have k'0: "k' < length (sections pe)"
      by (simp add: pe_rel_fields)
    from j rel2 k'1 have j1: "j < length (instr_flags (sections pe1 ! k'))"
      by (simp add: sec_rel_fields [OF pe_rel_section])
    with rel1 k'0 have j0: "j < length (instr_flags (sections pe ! k'))"
      by (simp add: sec_rel_fields [OF pe_rel_section])
    show "instr_flags (sections pe' ! k') ! j AND INSTR_SCANNED \<noteq> 0"
    proof (cases "k' = k \<and> j = unat relip")
      case True
      with first show ?thesis by simp
    next
      case False
      then have same: "instr_flags (sections pe1 ! k') ! j = instr_flags (sections pe ! k') ! j"
        by (intro flag_or_other [OF o]) blast
      let ?x = "instr_flags (sections pe ! k') ! j"
      from pe_rel_byte [OF rel2 k'1 j1] same
      have c: "instr_flags (sections pe' ! k') ! j = ?x \<or>
               instr_flags (sections pe' ! k') ! j = ?x OR INSTR_SCANNED"
        by simp
      with v have "?x AND INSTR_VALID \<noteq> 0"
        by (auto simp: valid_or_scanned)
      with vs k'0 j0 have "?x AND INSTR_SCANNED \<noteq> 0"
        by (simp add: valid_scanned_nth)
      with c show ?thesis
        by (auto simp only: scanned_or)
    qed
  qed
qed

section \<open>The invariant of the scanner\<close>

lemma flag_or_target_valid_scanned:
  assumes o: "flag_or pe t i m = Inr pe'" and m: "m \<in> {INSTR_FUNC, INSTR_JUMP}"
    and vs: "valid_scanned pe"
  shows "valid_scanned pe'"
  unfolding valid_scanned_nth
proof (intro allI impI)
  fix k j
  assume k': "k < length (sections pe')" and j': "j < length (instr_flags (sections pe' ! k))"
    and v: "instr_flags (sections pe' ! k) ! j AND INSTR_VALID \<noteq> 0"
  note rel = flag_or_rel [OF o]
  from k' rel have k: "k < length (sections pe)"
    by (simp add: pe_rel_fields)
  with j' rel have j: "j < length (instr_flags (sections pe ! k))"
    by (simp add: sec_rel_fields [OF pe_rel_section])
  let ?x = "instr_flags (sections pe ! k) ! j"
  from m have mv: "m AND INSTR_VALID = 0" and ms: "m AND INSTR_SCANNED = 0"
    by (auto simp: INSTR_FUNC_def INSTR_JUMP_def INSTR_VALID_def INSTR_SCANNED_def)
  from pe_rel_byte [OF rel k j]
  have c: "instr_flags (sections pe' ! k) ! j = ?x \<or> instr_flags (sections pe' ! k) ! j = ?x OR m" .
  with v have "?x AND INSTR_VALID \<noteq> 0"
    by (auto simp: or_and_mask [OF mv])
  with vs k j have "?x AND INSTR_SCANNED \<noteq> 0"
    by (simp add: valid_scanned_nth)
  with c show "instr_flags (sections pe' ! k) ! j AND INSTR_SCANNED \<noteq> 0"
    by (auto simp: or_and_mask [OF ms])
qed

lemma decoder_okD:
  "decoder_ok D \<Longrightarrow> D ip p = (len, ins) \<Longrightarrow> 0 < len \<and> unat len \<le> MAX_INSTR"
  unfolding decoder_ok_def by (metis fst_conv)

lemma scan_valid_scanned_aux:
  assumes D: "decoder_ok D"
  shows "(\<forall>ip w w'. scan_segment n D f ip w = Some (Inr w') \<longrightarrow> image_ok (image w) \<longrightarrow>
            valid_scanned (image w) \<longrightarrow> valid_scanned (image w')) \<and>
         (\<forall>k ip w w'. scan_loop n D f k ip w = Some (Inr w') \<longrightarrow> k < length (sections (image w)) \<longrightarrow>
            image_ok (image w) \<longrightarrow> valid_scanned (image w) \<longrightarrow> valid_scanned (image w'))"
proof (induction n)
  case 0
  show ?case by (simp add: scan_segment.simps scan_loop.simps)
next
  case (Suc n)
  then have seg: "\<And>ip w w'. scan_segment n D f ip w = Some (Inr w') \<Longrightarrow> image_ok (image w) \<Longrightarrow>
       valid_scanned (image w) \<Longrightarrow> valid_scanned (image w')"
    and loop: "\<And>k ip w w'. scan_loop n D f k ip w = Some (Inr w') \<Longrightarrow>
       k < length (sections (image w)) \<Longrightarrow> image_ok (image w) \<Longrightarrow>
       valid_scanned (image w) \<Longrightarrow> valid_scanned (image w')"
    by blast+
  have "valid_scanned (image w')"
    if run: "scan_segment (Suc n) D f ip w = Some (Inr w')" and ok: "image_ok (image w)"
      and vs: "valid_scanned (image w)" for ip w w'
    using run
  proof (cases rule: scan_segment_SucE)
    case unmapped
    with vs show ?thesis by simp
  next
    case (mapped k fl)
    from addr2section_Some [OF mapped(1)] have "k < length (sections (image w))"
      by simp
    with loop [OF mapped(3)] ok vs show ?thesis
      by (simp split: if_splits)
  qed
  moreover have "valid_scanned (image w')"
    if run: "scan_loop (Suc n) D f k ip w = Some (Inr w')" and k: "k < length (sections (image w))"
      and ok: "image_ok (image w)" and vs: "valid_scanned (image w)" for k ip w w'
    using run
  proof (cases rule: scan_loop_SucE)
    case finish
    with vs show ?thesis by simp
  next
    case (seen fl)
    with vs show ?thesis by simp
  next
    case (over fl len ins pe1 i)
    from decoder_okD [OF D over(4)] have "0 < len" "unat len \<le> MAX_INSTR"
      by simp_all
    from mark_instr_valid_scanned(2) [OF over(5) ok k this vs] over(8)
    show ?thesis by simp
  next
    case (go fl len ins pe1 i w2)
    from decoder_okD [OF D go(4)] have "0 < len" "unat len \<le> MAX_INSTR"
      by simp_all
    from mark_instr_valid_scanned(2) [OF go(5) ok k this vs]
    have vs1: "valid_scanned pe1" .
    from mark_instr_grows [OF go(5)] have g1: "grows (image w) pe1" .
    from image_ok_grows [OF ok g1] have ok1: "image_ok pe1" .
    from go(7) have two: "valid_scanned (image w2) \<and> grows pe1 (image w2)"
    proof (elim disjE conjE exE)
      fix t pe2
      assume o: "flag_or pe1 t (arg0 ins - address (sections pe1 ! t))
            (if op_name ins = ''call'' then INSTR_FUNC else INSTR_JUMP) = Inr pe2"
        and s: "scan_segment n D f (arg0 ins) (tick (w\<lparr>image := pe2\<rparr>)) = Some (Inr w2)"
      from o have g2: "grows pe1 pe2"
        by (rule flag_or_grows) simp
      from o have vs2: "valid_scanned pe2"
        by (rule flag_or_target_valid_scanned) (simp_all add: vs1)
      from image_ok_grows [OF ok1 g2] have ok2: "image_ok pe2" .
      from seg [OF s] ok2 vs2 have "valid_scanned (image w2)"
        by simp
      moreover from scan_segment_grows [OF s] g2 have "grows pe1 (image w2)"
        by (auto intro: grows_trans)
      ultimately show ?thesis by simp
    qed (simp_all add: vs1 grows_refl)
    then have vs2: "valid_scanned (image w2)" and g2: "grows pe1 (image w2)"
      by simp_all
    from image_ok_grows [OF ok1 g2] have ok2: "image_ok (image w2)" .
    from k g1 g2 have k2: "k < length (sections (image w2))"
      by (simp add: grows_length)
    from go(8) show ?thesis
    proof (elim disjE conjE)
      assume "scan_loop n D f k (ip + len) w2 = Some (Inr w')"
      from loop [OF this k2 ok2 vs2] show ?thesis .
    qed (simp add: vs2)
  qed
  ultimately show ?case by blast
qed

lemma scan_segment_valid_scanned:
  "decoder_ok D \<Longrightarrow> scan_segment n D f ip w = Some (Inr w') \<Longrightarrow> image_ok (image w) \<Longrightarrow>
     valid_scanned (image w) \<Longrightarrow> valid_scanned (image w')"
  using scan_valid_scanned_aux by blast

lemma reachable_invariants:
  assumes "decoder_ok D" and "reachable D f w"
  shows "image_ok (image w) \<and> valid_scanned (image w)"
  using assms(2)
proof (induction rule: reachable.induct)
  case (start w)
  then show ?case
    by (fastforce simp: valid_scanned_def all_empty_def)
next
  case (call w n ip w')
  from scan_segment_grows [OF call(2)] call(3) have "image_ok (image w')"
    by (auto intro: image_ok_grows)
  moreover from scan_segment_valid_scanned [OF assms(1) call(2)] call(3)
  have "valid_scanned (image w')"
    by simp
  ultimately show ?case by simp
qed

section \<open>The bytes that are not yet scanned\<close>

lemma bits_grow_scanned:
  assumes "bits_grow x y" and "y AND INSTR_SCANNED = 0"
  shows "x AND INSTR_SCANNED = 0"
proof -
  from assms(1) have "x AND y = x"
    by (simp add: bits_grow_def)
  then have "x AND INSTR_SCANNED = (x AND y) AND INSTR_SCANNED"
    by simp
  also have "\<dots> = x AND (y AND INSTR_SCANNED)"
    by (simp only: and.assoc)
  also have "\<dots> = 0"
    by (simp add: assms(2))
  finally show ?thesis .
qed

lemma unsc_le: "list_all2 bits_grow xs ys \<Longrightarrow> unsc ys \<le> unsc xs"
  unfolding unsc_def
  by (induction rule: list_all2_induct) (auto dest: bits_grow_scanned)

lemma unsc_less:
  "list_all2 bits_grow xs ys \<Longrightarrow> j < length xs \<Longrightarrow> xs ! j AND INSTR_SCANNED = 0 \<Longrightarrow>
     ys ! j AND INSTR_SCANNED \<noteq> 0 \<Longrightarrow> unsc ys < unsc xs"
proof (induction arbitrary: j rule: list_all2_induct)
  case Nil
  then show ?case by simp
next
  case (Cons x xs y ys)
  show ?case
  proof (cases j)
    case 0
    with Cons.prems have "x AND INSTR_SCANNED = 0" "y AND INSTR_SCANNED \<noteq> 0"
      by simp_all
    with unsc_le [OF Cons.hyps(2)] show ?thesis
      by (simp add: unsc_def)
  next
    case (Suc j')
    with Cons.prems have "unsc ys < unsc xs"
      by (intro Cons.IH [of j']) simp_all
    with Cons.hyps(1) show ?thesis
      by (auto simp: unsc_def dest: bits_grow_scanned)
  qed
qed

lemmas unscanned_unsc = unscanned_def

lemma sum_unsc_le:
  "list_all2 (sec_rel bits_grow) ss ss' \<Longrightarrow>
     sum_list (map (\<lambda>s. unsc (instr_flags s)) ss') \<le> sum_list (map (\<lambda>s. unsc (instr_flags s)) ss)"
proof (induction rule: list_all2_induct)
  case Nil
  then show ?case by simp
next
  case (Cons s ss s' ss')
  from Cons.hyps(1) have "unsc (instr_flags s') \<le> unsc (instr_flags s)"
    by (simp add: sec_rel_def unsc_le)
  with Cons.IH show ?case by simp
qed

lemma sum_unsc_less:
  "list_all2 (sec_rel bits_grow) ss ss' \<Longrightarrow> k < length ss \<Longrightarrow>
     j < length (instr_flags (ss ! k)) \<Longrightarrow> instr_flags (ss ! k) ! j AND INSTR_SCANNED = 0 \<Longrightarrow>
     instr_flags (ss' ! k) ! j AND INSTR_SCANNED \<noteq> 0 \<Longrightarrow>
     sum_list (map (\<lambda>s. unsc (instr_flags s)) ss') < sum_list (map (\<lambda>s. unsc (instr_flags s)) ss)"
proof (induction arbitrary: k rule: list_all2_induct)
  case Nil
  then show ?case by simp
next
  case (Cons s ss s' ss')
  show ?case
  proof (cases k)
    case 0
    with Cons.prems Cons.hyps(1) have "unsc (instr_flags s') < unsc (instr_flags s)"
      by (intro unsc_less [of _ _ j]) (simp_all add: sec_rel_def)
    with sum_unsc_le [OF Cons.hyps(2)] show ?thesis by simp
  next
    case (Suc k')
    with Cons.prems have "sum_list (map (\<lambda>s. unsc (instr_flags s)) ss')
        < sum_list (map (\<lambda>s. unsc (instr_flags s)) ss)"
      by (intro Cons.IH [of k']) simp_all
    moreover from Cons.hyps(1) have "unsc (instr_flags s') \<le> unsc (instr_flags s)"
      by (simp add: sec_rel_def unsc_le)
    ultimately show ?thesis by simp
  qed
qed

lemma grows_unscanned_le: "grows pe pe' \<Longrightarrow> unscanned pe' \<le> unscanned pe"
  unfolding unscanned_unsc grows_def pe_rel_def by (blast intro: sum_unsc_le)

lemma grows_unscanned_less:
  "grows pe pe' \<Longrightarrow> k < length (sections pe) \<Longrightarrow> j < length (instr_flags (sections pe ! k)) \<Longrightarrow>
     instr_flags (sections pe ! k) ! j AND INSTR_SCANNED = 0 \<Longrightarrow>
     instr_flags (sections pe' ! k) ! j AND INSTR_SCANNED \<noteq> 0 \<Longrightarrow>
     unscanned pe' < unscanned pe"
  unfolding unscanned_unsc grows_def pe_rel_def by (blast intro: sum_unsc_less)

lemma mark_instr_unscanned:
  assumes m: "mark_instr pe k relip len = Inr (pe', i)"
    and fl: "flag_get pe k relip = Inr fl" and un: "fl AND INSTR_SCANNED = 0"
    and ok: "image_ok pe" and k: "k < length (sections pe)"
    and l0: "0 < len" and l1: "unat len \<le> MAX_INSTR"
  shows "unscanned pe' < unscanned pe"
proof -
  from fl un have j: "unat relip < length (instr_flags (sections pe ! k))"
    and old: "instr_flags (sections pe ! k) ! unat relip AND INSTR_SCANNED = 0"
    by (auto simp: flag_get_def Let_def split: if_splits)
  from mark_instr_grows [OF m] k j old mark_instr_valid_scanned(1) [OF m ok k l0 l1]
  show ?thesis
    by (rule grows_unscanned_less)
qed


lemma scan_steps_aux:
  assumes D: "decoder_ok D"
  shows "(\<forall>ip w w'. scan_segment n D f ip w = Some (Inr w') \<longrightarrow> image_ok (image w) \<longrightarrow>
            steps w' + 3 * unscanned (image w') \<le> steps w + 3 * unscanned (image w) + 2) \<and>
         (\<forall>k ip w w'. scan_loop n D f k ip w = Some (Inr w') \<longrightarrow> k < length (sections (image w)) \<longrightarrow>
            image_ok (image w) \<longrightarrow>
            steps w' + 3 * unscanned (image w') \<le> steps w + 3 * unscanned (image w) + 1)"
proof (induction n)
  case 0
  show ?case by (simp add: scan_segment.simps scan_loop.simps)
next
  case (Suc n)
  then have seg: "\<And>ip w w'. scan_segment n D f ip w = Some (Inr w') \<Longrightarrow> image_ok (image w) \<Longrightarrow>
       steps w' + 3 * unscanned (image w') \<le> steps w + 3 * unscanned (image w) + 2"
    and loop: "\<And>k ip w w'. scan_loop n D f k ip w = Some (Inr w') \<Longrightarrow>
       k < length (sections (image w)) \<Longrightarrow> image_ok (image w) \<Longrightarrow>
       steps w' + 3 * unscanned (image w') \<le> steps w + 3 * unscanned (image w) + 1"
    by blast+
  have "steps w' + 3 * unscanned (image w') \<le> steps w + 3 * unscanned (image w) + 2"
    if run: "scan_segment (Suc n) D f ip w = Some (Inr w')" and ok: "image_ok (image w)"
    for ip w w'
    using run
  proof (cases rule: scan_segment_SucE)
    case unmapped
    then show ?thesis by simp
  next
    case (mapped k fl)
    from addr2section_Some [OF mapped(1)] have k: "k < length (sections (image w))"
      by simp
    let ?w1 = "if fl AND (INSTR_VALID OR INSTR_SCANNED) = INSTR_SCANNED
               then warn (NotBeginInstr ip) (tick w) else tick w"
    have i1: "image ?w1 = image w" and s1: "steps ?w1 = Suc (steps w)"
      by simp_all
    have k1: "k < length (sections (image ?w1))"
      unfolding i1 by (rule k)
    have ok1: "image_ok (image ?w1)"
      unfolding i1 by (rule ok)
    from loop [OF mapped(3) k1 ok1] show ?thesis
      unfolding i1 s1 by simp
  qed
  moreover have "steps w' + 3 * unscanned (image w') \<le> steps w + 3 * unscanned (image w) + 1"
    if run: "scan_loop (Suc n) D f k ip w = Some (Inr w')" and k: "k < length (sections (image w))"
      and ok: "image_ok (image w)" for k ip w w'
    using run
  proof (cases rule: scan_loop_SucE)
    case finish
    then show ?thesis by simp
  next
    case (seen fl)
    then show ?thesis by simp
  next
    case (over fl len ins pe1 i)
    from decoder_okD [OF D over(4)] have "0 < len" "unat len \<le> MAX_INSTR"
      by simp_all
    from mark_instr_unscanned [OF over(5) over(2,3) ok k this] over(8)
    show ?thesis by simp
  next
    case (go fl len ins pe1 i w2)
    from decoder_okD [OF D go(4)] have "0 < len" "unat len \<le> MAX_INSTR"
      by simp_all
    from mark_instr_unscanned [OF go(5) go(2,3) ok k this]
    have u1: "unscanned pe1 < unscanned (image w)" .
    from mark_instr_grows [OF go(5)] have g1: "grows (image w) pe1" .
    from image_ok_grows [OF ok g1] have ok1: "image_ok pe1" .
    from go(7) have two: "steps w2 + 3 * unscanned (image w2) \<le> steps w + 3 * unscanned pe1 + 3
        \<and> grows pe1 (image w2)"
    proof (elim disjE conjE exE)
      fix t pe2
      assume o: "flag_or pe1 t (arg0 ins - address (sections pe1 ! t))
            (if op_name ins = ''call'' then INSTR_FUNC else INSTR_JUMP) = Inr pe2"
        and s: "scan_segment n D f (arg0 ins) (tick (w\<lparr>image := pe2\<rparr>)) = Some (Inr w2)"
      from o have g2: "grows pe1 pe2"
        by (rule flag_or_grows) simp
      from image_ok_grows [OF ok1 g2] have ok2: "image_ok pe2" .
      from seg [OF s] ok2 grows_unscanned_le [OF g2]
      have "steps w2 + 3 * unscanned (image w2) \<le> steps w + 3 * unscanned pe1 + 3"
        by simp
      moreover from scan_segment_grows [OF s] g2 have "grows pe1 (image w2)"
        by (auto intro: grows_trans)
      ultimately show ?thesis by simp
    qed (simp_all add: grows_refl)
    then have b2: "steps w2 + 3 * unscanned (image w2) \<le> steps w + 3 * unscanned pe1 + 3"
      and g2: "grows pe1 (image w2)"
      by simp_all
    from image_ok_grows [OF ok1 g2] have ok2: "image_ok (image w2)" .
    from k g1 g2 have k2: "k < length (sections (image w2))"
      by (simp add: grows_length)
    from go(8) show ?thesis
    proof (elim disjE conjE)
      assume "scan_loop n D f k (ip + len) w2 = Some (Inr w')"
      from loop [OF this k2 ok2] b2 u1 show ?thesis
        by simp
    next
      assume "w' = w2"
      with b2 u1 show ?thesis by simp
    qed
  qed
  ultimately show ?case by blast
qed

lemma scan_total_aux:
  assumes D: "decoder_ok D"
  shows "(\<forall>ip w. image_ok (image w) \<longrightarrow> 2 * unscanned (image w) + 2 \<le> n \<longrightarrow>
            scan_segment n D f ip w \<noteq> None) \<and>
         (\<forall>k ip w. k < length (sections (image w)) \<longrightarrow> image_ok (image w) \<longrightarrow>
            2 * unscanned (image w) + 1 \<le> n \<longrightarrow> scan_loop n D f k ip w \<noteq> None)"
proof (induction n)
  case 0
  show ?case by simp
next
  case (Suc n)
  then have seg: "\<And>ip w. image_ok (image w) \<Longrightarrow> 2 * unscanned (image w) + 2 \<le> n \<Longrightarrow>
       scan_segment n D f ip w \<noteq> None"
    and loop: "\<And>k ip w. k < length (sections (image w)) \<Longrightarrow> image_ok (image w) \<Longrightarrow>
       2 * unscanned (image w) + 1 \<le> n \<Longrightarrow> scan_loop n D f k ip w \<noteq> None"
    by blast+
  have "scan_segment (Suc n) D f ip w \<noteq> None"
    if ok: "image_ok (image w)" and n: "2 * unscanned (image w) + 2 \<le> Suc n" for ip w
  proof
    assume "scan_segment (Suc n) D f ip w = None"
    then show False
    proof (cases rule: scan_segment_Suc_NoneE)
      case (1 k fl)
      from addr2section_Some [OF 1(1)] have k: "k < length (sections (image w))"
        by simp
      let ?w1 = "if fl AND (INSTR_VALID OR INSTR_SCANNED) = INSTR_SCANNED
                 then warn (NotBeginInstr ip) (tick w) else tick w"
      have i1: "image ?w1 = image w"
        by simp
      have k1: "k < length (sections (image ?w1))"
        unfolding i1 by (rule k)
      have ok1: "image_ok (image ?w1)"
        unfolding i1 by (rule ok)
      have n1: "2 * unscanned (image ?w1) + 1 \<le> n"
        unfolding i1 using n by simp
      from loop [OF k1 ok1 n1] 1(3) show False
        by contradiction
    qed
  qed
  moreover have "scan_loop (Suc n) D f k ip w \<noteq> None"
    if k: "k < length (sections (image w))" and ok: "image_ok (image w)"
      and n: "2 * unscanned (image w) + 1 \<le> Suc n" for k ip w
  proof
    assume "scan_loop (Suc n) D f k ip w = None"
    then show False
    proof (cases rule: scan_loop_Suc_NoneE)
      case (nested fl len ins pe1 i t pe2)
      from decoder_okD [OF D nested(4)] have "0 < len" "unat len \<le> MAX_INSTR"
        by simp_all
      from mark_instr_unscanned [OF nested(5) nested(2,3) ok k this]
      have u1: "unscanned pe1 < unscanned (image w)" .
      from mark_instr_grows [OF nested(5)] have g1: "grows (image w) pe1" .
      from nested(7) have g2: "grows pe1 pe2"
        by (rule flag_or_grows) simp
      from ok g1 g2 have ok2: "image_ok pe2"
        by (blast intro: image_ok_grows)
      from grows_unscanned_le [OF g2] u1 n
      have "2 * unscanned (image (tick (w\<lparr>image := pe2\<rparr>))) + 2 \<le> n"
        by simp
      moreover from ok2 have "image_ok (image (tick (w\<lparr>image := pe2\<rparr>)))"
        by simp
      ultimately have "scan_segment n D f (arg0 ins) (tick (w\<lparr>image := pe2\<rparr>)) \<noteq> None"
        by (intro seg)
      with nested(8) show False
        by contradiction
    next
      case (rest fl len ins pe1 i w2)
      from decoder_okD [OF D rest(4)] have "0 < len" "unat len \<le> MAX_INSTR"
        by simp_all
      from mark_instr_unscanned [OF rest(5) rest(2,3) ok k this]
      have u1: "unscanned pe1 < unscanned (image w)" .
      from mark_instr_grows [OF rest(5)] have g1: "grows (image w) pe1" .
      from rest(6) have g2: "grows pe1 (image w2)"
      proof (elim disjE conjE exE)
        fix t pe2
        assume o: "flag_or pe1 t (arg0 ins - address (sections pe1 ! t))
              (if op_name ins = ''call'' then INSTR_FUNC else INSTR_JUMP) = Inr pe2"
          and s: "scan_segment n D f (arg0 ins) (tick (w\<lparr>image := pe2\<rparr>)) = Some (Inr w2)"
        from o have "grows pe1 pe2"
          by (rule flag_or_grows) simp
        with scan_segment_grows [OF s] show ?thesis
          by (auto intro: grows_trans)
      qed (simp_all add: grows_refl)
      from ok g1 g2 have ok2: "image_ok (image w2)"
        by (blast intro: image_ok_grows)
      from k g1 g2 have k2: "k < length (sections (image w2))"
        by (simp add: grows_length)
      from grows_unscanned_le [OF g2] u1 n have "2 * unscanned (image w2) + 1 \<le> n"
        by simp
      then have "scan_loop n D f k (ip + len) w2 \<noteq> None"
        by (rule loop [OF k2 ok2])
      with rest(7) show False
        by contradiction
    qed
  qed
  ultimately show ?case by blast
qed

lemma scan_segment_total:
  "decoder_ok D \<Longrightarrow> image_ok (image w) \<Longrightarrow> 2 * unscanned (image w) + 2 \<le> n \<Longrightarrow>
     \<exists>r. scan_segment n D f ip w = Some r"
  using scan_total_aux [of D n f] by blast

lemma scan_segment_steps:
  "decoder_ok D \<Longrightarrow> image_ok (image w) \<Longrightarrow> scan_segment n D f ip w = Some (Inr w') \<Longrightarrow>
     steps w' + 3 * unscanned (image w') \<le> steps w + 3 * unscanned (image w) + 2"
  using scan_steps_aux [of D n f] by blast

section \<open>The self-loop scenario\<close>

lemma self_loop_scan:
  assumes secs: "sections (image w) = [sec]"
    and a: "address sec = 0x1000" and ma: "min_alloc sec = 0x40" and ln: "length_sec sec = 0x40"
    and fl: "instr_flags sec = replicate 0x40 0"
    and d: "D 0x1000 (read_window f sec 0) = (2, ins)"
    and br: "op_branch ins" and st: "op_stop ins" and tg: "arg0 ins = 0x1000"
    and nm: "op_name ins \<noteq> ''call''"
  shows "\<exists>w'. scan_segment (Suc (Suc (Suc (Suc n)))) D f 0x1000 w = Some (Inr w') \<and>
           stderr w' = stderr w \<and>
           instr_flags (sections (image w') ! 0) ! 0 = INSTR_VALID OR INSTR_SCANNED OR INSTR_JUMP \<and>
           instr_flags (sections (image w') ! 0) ! 1 = INSTR_SCANNED \<and>
           steps w' = steps w + 4"
  using assms
  by (simp add: scan_eval)


section \<open>Entry addresses that a scan has settled\<close>

lemma grows_scanned_byte:
  assumes "grows pe pe'" and "k < length (sections pe)"
    and "j < length (instr_flags (sections pe ! k))"
    and "instr_flags (sections pe ! k) ! j AND INSTR_SCANNED \<noteq> 0"
  shows "instr_flags (sections pe' ! k) ! j AND INSTR_SCANNED \<noteq> 0"
proof -
  from assms(1-3) have "bits_grow (instr_flags (sections pe ! k) ! j) (instr_flags (sections pe' ! k) ! j)"
    unfolding grows_def by (rule pe_rel_byte)
  with assms(4) show ?thesis
    by (blast dest: bits_grow_scanned)
qed

lemma settled_grows:
  assumes s: "settled ip pe" and g: "grows pe pe'"
  shows "settled ip pe'"
proof (cases "addr2section ip pe")
  case None
  with g show ?thesis
    by (simp add: settled_def grows_def addr2section_rel)
next
  case (Some k)
  from g have a: "addr2section ip pe' = Some k"
    using Some by (simp add: grows_def addr2section_rel)
  from addr2section_Some [OF Some] have k: "k < length (sections pe)"
    by simp
  from g k have r: "sec_rel bits_grow (sections pe ! k) (sections pe' ! k)"
    unfolding grows_def by (rule pe_rel_section)
  note f = sec_rel_fields [OF r]
  let ?relip = "ip - address (sections pe ! k)"
  from s Some have j: "unat ?relip < length (instr_flags (sections pe ! k))"
    and c: "length_sec (sections pe ! k) \<le> ?relip \<or>
            instr_flags (sections pe ! k) ! unat ?relip AND INSTR_SCANNED \<noteq> 0"
    by (simp_all add: settled_def Let_def)
  from c have "length_sec (sections pe ! k) \<le> ?relip \<or>
            instr_flags (sections pe' ! k) ! unat ?relip AND INSTR_SCANNED \<noteq> 0"
    using grows_scanned_byte [OF g k j] by blast
  with a j show ?thesis
    by (simp add: settled_def Let_def f)
qed

lemma settled_again:
  assumes s: "settled ip (image w)"
  shows "\<exists>w'. scan_segment (Suc (Suc n)) D f ip w = Some (Inr w') \<and> image w' = image w"
proof (cases "addr2section ip (image w)")
  case None
  then show ?thesis
    by (simp add: scan_segment.simps)
next
  case (Some k)
  let ?sec = "sections (image w) ! k"
  let ?relip = "ip - address ?sec"
  let ?fl = "instr_flags ?sec ! unat ?relip"
  from s Some have j: "unat ?relip < length (instr_flags ?sec)"
    and c: "length_sec ?sec \<le> ?relip \<or> ?fl AND INSTR_SCANNED \<noteq> 0"
    by (simp_all add: settled_def Let_def)
  from j have fl: "flag_get (image w) k ?relip = Inr ?fl"
    by (simp add: flag_get_def)
  define w1 where "w1 = (if ?fl AND (INSTR_VALID OR INSTR_SCANNED) = INSTR_SCANNED
             then warn (NotBeginInstr ip) (tick w) else tick w)"
  have i1: "image w1 = image w"
    by (simp add: w1_def)
  from Some fl have a: "scan_segment (Suc (Suc n)) D f ip w = scan_loop (Suc n) D f k ip w1"
    by (simp add: scan_segment.simps w1_def)
  from fl have fl1: "flag_get (image w1) k (ip - address (sections (image w1) ! k)) = Inr ?fl"
    unfolding i1 .
  have "\<exists>w'. scan_loop (Suc n) D f k ip w1 = Some (Inr w') \<and> image w' = image w1"
  proof (cases "?relip < length_sec ?sec")
    case True
    with c have sc: "?fl AND INSTR_SCANNED \<noteq> 0"
      by (simp add: not_le [symmetric])
    from True have lt: "ip - address (sections (image w1) ! k) < length_sec (sections (image w1) ! k)"
      unfolding i1 .
    from lt fl1 sc have "scan_loop (Suc n) D f k ip w1 = Some (Inr (tick w1))"
      by (simp add: scan_loop.simps Let_def)
    then show ?thesis
      by simp
  next
    case False
    then have "\<not> ip - address (sections (image w1) ! k) < length_sec (sections (image w1) ! k)"
      unfolding i1 .
    then have "scan_loop (Suc n) D f k ip w1 = Some (Inr (warn (EndOfSection ip) w1))"
      by (simp add: scan_loop.simps Let_def)
    then show ?thesis
      by simp
  qed
  then obtain w' where "scan_loop (Suc n) D f k ip w1 = Some (Inr w')" "image w' = image w1"
    by blast
  with a i1 have "scan_segment (Suc (Suc n)) D f ip w = Some (Inr w') \<and> image w' = image w"
    by simp
  then show ?thesis
    by blast
qed


lemma mark_instr_settled:
  assumes a: "addr2section ip pe = Some k"
    and m: "mark_instr pe k (ip - address (sections pe ! k)) len = Inr (pe1, i)"
    and ok: "image_ok pe" and l0: "0 < len" and l1: "unat len \<le> MAX_INSTR"
  shows "settled ip pe1"
proof -
  from addr2section_Some [OF a] have k: "k < length (sections pe)"
    by simp
  note g = mark_instr_grows [OF m]
  from g have a1: "addr2section ip pe1 = Some k"
    using a by (simp add: grows_def addr2section_rel)
  from g k have r: "sec_rel bits_grow (sections pe ! k) (sections pe1 ! k)"
    unfolding grows_def by (rule pe_rel_section)
  note f = sec_rel_fields [OF r]
  from m have "unat (ip - address (sections pe ! k)) < length (instr_flags (sections pe ! k))"
    by (auto simp: mark_instr_def flag_or_def Let_def split: sum.splits if_splits)
  with a1 mark_instr_valid_scanned(1) [OF m ok k l0 l1] show ?thesis
    by (simp add: settled_def Let_def f)
qed

lemma scan_segment_settles:
  assumes D: "decoder_ok D" and ok: "image_ok (image w)"
    and run: "scan_segment n D f ip w = Some (Inr w')"
  shows "settled ip (image w')"
proof -
  from run obtain n1 where n: "n = Suc n1"
    by (cases n) (simp_all add: scan_segment.simps)
  from run [unfolded n] show ?thesis
  proof (cases rule: scan_segment_SucE)
    case unmapped
    then show ?thesis by (simp add: settled_def)
  next
    case (mapped k fl)
    define w1 where "w1 = (if fl AND (INSTR_VALID OR INSTR_SCANNED) = INSTR_SCANNED
          then warn (NotBeginInstr ip) (tick w) else tick w)"
    have i1: "image w1 = image w"
      by (simp add: w1_def)
    from mapped(3) have lp: "scan_loop n1 D f k ip w1 = Some (Inr w')"
      by (simp add: w1_def)
    then obtain n2 where n1: "n1 = Suc n2"
      by (cases n1) (simp_all add: scan_loop.simps)
    from mapped(2) have j: "unat (ip - address (sections (image w) ! k))
        < length (instr_flags (sections (image w) ! k))"
      by (auto simp: flag_get_def Let_def split: if_splits)
    from lp [unfolded n1] show ?thesis
    proof (cases rule: scan_loop_SucE)
      case finish
      with mapped(1) j show ?thesis
        by (simp add: settled_def Let_def i1 not_less)
    next
      case (seen fl')
      from seen(2) have "instr_flags (sections (image w) ! k) ! unat (ip - address (sections (image w) ! k)) = fl'"
        by (auto simp: flag_get_def Let_def i1 split: if_splits)
      with seen(3,4) mapped(1) j show ?thesis
        by (simp add: settled_def Let_def i1)
    next
      case (over fl' len ins pe1 i)
      from decoder_okD [OF D over(4)] have l: "0 < len" "unat len \<le> MAX_INSTR"
        by simp_all
      from over(5) have "mark_instr (image w) k (ip - address (sections (image w) ! k)) len = Inr (pe1, i)"
        by (simp add: i1)
      from mark_instr_settled [OF mapped(1) this ok l] over(8) show ?thesis
        by simp
    next
      case (go fl' len ins pe1 i w2)
      from decoder_okD [OF D go(4)] have l: "0 < len" "unat len \<le> MAX_INSTR"
        by simp_all
      from go(5) have "mark_instr (image w) k (ip - address (sections (image w) ! k)) len = Inr (pe1, i)"
        by (simp add: i1)
      from mark_instr_settled [OF mapped(1) this ok l] have s1: "settled ip pe1" .
      from go(7) have g2: "grows pe1 (image w2)"
      proof (elim disjE conjE exE)
        fix t pe2
        assume o: "flag_or pe1 t (arg0 ins - address (sections pe1 ! t))
              (if op_name ins = ''call'' then INSTR_FUNC else INSTR_JUMP) = Inr pe2"
          and s: "scan_segment n2 D f (arg0 ins) (tick (w1\<lparr>image := pe2\<rparr>)) = Some (Inr w2)"
        from o have "grows pe1 pe2"
          by (rule flag_or_grows) simp
        with scan_segment_grows [OF s] show ?thesis
          by (auto intro: grows_trans)
      qed (simp_all add: grows_refl)
      from go(8) have g3: "grows (image w2) (image w')"
        by (auto simp: grows_refl dest: scan_loop_grows)
      from s1 g2 g3 show ?thesis
        by (blast intro: settled_grows)
    qed
  qed
qed

lemma scan_exports_settles:
  assumes D: "decoder_ok D"
  shows "image_ok (image w) \<Longrightarrow> scan_exports n D f es w = Some (Inr w') \<Longrightarrow>
     (\<forall>e \<in> set es. settled (export.address e) (image w'))"
proof (induction es arbitrary: w)
  case Nil
  then show ?case by simp
next
  case (Cons e es)
  from Cons.prems(2) obtain w1 where a: "scan_segment n D f (export.address e) w = Some (Inr w1)"
    and b: "scan_exports n D f es w1 = Some (Inr w')"
    by (auto split: option.splits sum.splits)
  from scan_segment_grows [OF a] Cons.prems(1) have ok1: "image_ok (image w1)"
    by (blast intro: image_ok_grows)
  from scan_segment_settles [OF D Cons.prems(1) a] scan_exports_grows [OF b]
  have "settled (export.address e) (image w')"
    by (blast intro: settled_grows)
  with Cons.IH [OF ok1 b] show ?case
    by simp
qed

lemma scan_exports_again:
  "(\<forall>e \<in> set es. settled (export.address e) (image w)) \<Longrightarrow>
     \<exists>w'. scan_exports (Suc (Suc n)) D f es w = Some (Inr w') \<and> image w' = image w"
proof (induction es arbitrary: w)
  case Nil
  then show ?case by simp
next
  case (Cons e es)
  from Cons.prems have "settled (export.address e) (image w)"
    by simp
  from settled_again [OF this, of n D f] obtain w1
    where a: "scan_segment (Suc (Suc n)) D f (export.address e) w = Some (Inr w1)"
      and i: "image w1 = image w"
    by blast
  from Cons.prems i have "\<forall>e \<in> set es. settled (export.address e) (image w1)"
    by simp
  from Cons.IH [OF this] a i show ?case
    by simp
qed

section \<open>The gap of the default mode\<close>

lemma word_succ_cases:
  fixes relip j L :: dword
  assumes "relip < L" and "relip \<le> j"
  shows "j = relip \<or> relip + 1 \<le> j"
  using assms by unat_arith

lemma word_succ_le:
  fixes relip L :: dword
  assumes "relip < L"
  shows "relip < relip + 1" and "relip + 1 \<le> L"
  using assms by unat_arith+

lemma skip_invalid_spec:
  assumes sz: "length (instr_flags (sections pe ! k)) = unat (min_alloc (sections pe ! k))"
  shows "\<exists>r. skip_invalid pe k relip = Inr r \<and> relip \<le> r \<and>
           (\<not> (relip < length_sec (sections pe ! k) \<and> relip < min_alloc (sections pe ! k))
              \<longrightarrow> r = relip) \<and>
           (relip < length_sec (sections pe ! k) \<and> relip < min_alloc (sections pe ! k)
              \<longrightarrow> r \<le> length_sec (sections pe ! k) \<and> r \<le> min_alloc (sections pe ! k)) \<and>
           (\<forall>j. relip \<le> j \<and> j < r \<longrightarrow>
              instr_flags (sections pe ! k) ! unat j AND INSTR_VALID = 0) \<and>
           (r < length_sec (sections pe ! k) \<and> r < min_alloc (sections pe ! k) \<longrightarrow>
              instr_flags (sections pe ! k) ! unat r AND INSTR_VALID \<noteq> 0)"
  using sz
proof (induction pe k relip rule: skip_invalid.induct)
  case (1 pe k relip)
  let ?L = "length_sec (sections pe ! k)"
  let ?M = "min_alloc (sections pe ! k)"
  let ?fl = "instr_flags (sections pe ! k)"
  show ?case
  proof (cases "relip < ?L \<and> relip < ?M")
    case False
    have "skip_invalid pe k relip = Inr relip"
      by (subst skip_invalid.simps) (rule if_not_P [OF False])
    with False show ?thesis
      by auto
  next
    case True
    then have "unat relip < length ?fl"
      using "1.prems" by (simp add: word_less_nat_alt)
    then have fg: "flag_get pe k relip = Inr (?fl ! unat relip)"
      by (simp add: flag_get_def)
    show ?thesis
    proof (cases "?fl ! unat relip AND INSTR_VALID = 0")
      case False
      with True fg have "skip_invalid pe k relip = Inr relip"
        by (subst skip_invalid.simps) simp
      with True False show ?thesis
        by auto
    next
      case nv: True
      from True fg nv have eq: "skip_invalid pe k relip = skip_invalid pe k (relip + 1)"
        by (subst skip_invalid.simps) simp
      from "1.IH" [OF True fg nv "1.prems"] obtain r
        where r: "skip_invalid pe k (relip + 1) = Inr r" and le: "relip + 1 \<le> r"
          and out: "\<not> (relip + 1 < ?L \<and> relip + 1 < ?M) \<longrightarrow> r = relip + 1"
          and bd: "relip + 1 < ?L \<and> relip + 1 < ?M \<longrightarrow> r \<le> ?L \<and> r \<le> ?M"
          and gap: "\<forall>j. relip + 1 \<le> j \<and> j < r \<longrightarrow> ?fl ! unat j AND INSTR_VALID = 0"
          and hit: "r < ?L \<and> r < ?M \<longrightarrow> ?fl ! unat r AND INSTR_VALID \<noteq> 0"
        by blast
      from True have tl: "relip < ?L" and tm: "relip < ?M"
        by blast+
      from tl have s1: "relip < relip + 1" and s2: "relip + 1 \<le> ?L"
        by (rule word_succ_le)+
      from tm have s3: "relip + 1 \<le> ?M"
        by (rule word_succ_le)
      from s1 le have le': "relip \<le> r"
        by simp
      from out bd s2 s3 have bd': "r \<le> ?L \<and> r \<le> ?M"
        by (cases "relip + 1 < ?L \<and> relip + 1 < ?M") auto
      have gap': "\<forall>j. relip \<le> j \<and> j < r \<longrightarrow> ?fl ! unat j AND INSTR_VALID = 0"
      proof (intro allI impI)
        fix j assume j: "relip \<le> j \<and> j < r"
        then have "relip \<le> j"
          by blast
        with tl have "j = relip \<or> relip + 1 \<le> j"
          by (rule word_succ_cases)
        with nv gap j show "?fl ! unat j AND INSTR_VALID = 0"
          by blast
      qed
      from eq r le' bd' gap' hit True show ?thesis
        by auto
    qed
  qed
qed


lemma print_one_output:
  assumes "print_one D f k r w1 = Inr (len, w2)"
  shows "\<exists>fl ins c.
           flag_get (image w1) k r = Inr fl \<and>
           D (r + address (sections (image w1) ! k)) (read_window f (sections (image w1) ! k) r)
             = (len, ins) \<and>
           stdout w2 = stdout w1 @
             (if fl AND INSTR_FUNC \<noteq> 0
              then [Blank, FuncHeader (r + address (sections (image w1) ! k))
                             (get_export_name (r + address (sections (image w1) ! k)) (image w1))]
              else []) @
             [InstrLine (r + address (sections (image w1) ! k))
                (read_window f (sections (image w1) ! k) r) len fl ins c]"
proof -
  let ?sec = "sections (image w1) ! k"
  let ?ip = "r + address ?sec"
  from assms obtain fl where fl: "flag_get (image w1) k r = Inr fl"
    by (auto simp: print_one_def Let_def split: sum.splits)
  define w' where "w' = (if fl AND INSTR_FUNC \<noteq> 0
      then emit (FuncHeader ?ip (get_export_name ?ip (image w1))) (emit Blank w1) else w1)"
  have i: "image w' = image w1"
    by (simp add: w'_def)
  from assms fl obtain line where p: "print_pe_instr D k ?ip (read_window f ?sec r) (image w1) = Inr (len, line)"
    and w2: "w2 = emit line w'"
    by (auto simp: print_one_def Let_def w'_def split: sum.splits if_splits)
  obtain len' ins where d: "D ?ip (read_window f ?sec r) = (len', ins)"
    by (cases "D ?ip (read_window f ?sec r)")
  have "?ip - address ?sec = r"
    by simp
  with p d fl obtain c where "len' = len" "line = InstrLine ?ip (read_window f ?sec r) len fl ins c"
    by (auto simp: print_pe_instr_def Let_def split: sum.splits if_splits)
  with d fl w2 show ?thesis
    by (auto simp: w'_def)
qed

lemma print_loop_default_gap:
  assumes lt: "relip < length_sec (sections (image w) ! k)"
    and fg: "flag_get (image w) k relip = Inr fl" and nv: "fl AND INSTR_VALID = 0"
    and sk: "skip_invalid (image w) k relip = Inr r"
  shows "print_loop (Suc n) False D f k relip w =
     (if length_sec (sections (image w) ! k) \<le> r \<or> min_alloc (sections (image w) ! k) \<le> r
      then Some (Inr (emit Gap w))
      else (case print_one D f k r (emit Gap w) of
              Inl x \<Rightarrow> Some (Inl x)
            | Inr (len, w2) \<Rightarrow> print_loop n False D f k (r + len) w2))"
  using assms
  by (simp add: print_loop.simps find_valid_def Let_def split del: if_split
        cong: if_weak_cong sum.case_cong_weak)

lemma print_loop_appends:
  "print_loop n all D f k relip w = Some (Inr w') \<Longrightarrow> \<exists>rest. stdout w' = stdout w @ rest"
proof (induction n arbitrary: relip w)
  case 0
  then show ?case by (simp add: print_loop.simps)
next
  case (Suc n)
  let ?sec = "sections (image w) ! k"
  show ?case
  proof (cases "relip < length_sec ?sec")
    case False
    with Suc.prems show ?thesis
      by (auto simp: print_loop.simps Let_def)
  next
    case lt: True
    with Suc.prems obtain fl where fl: "flag_get (image w) k relip = Inr fl"
      by (auto simp: print_loop.simps Let_def split: sum.splits)
    define fv where "fv = (if fl AND INSTR_VALID = 0 then find_valid all f k relip w
                           else Inr (relip, w))"
    from Suc.prems lt fl obtain relip1 w1 where fv: "fv = Inr (relip1, w1)"
      by (cases fv) (auto simp: print_loop.simps Let_def fv_def)
    from fv have a1: "\<exists>rest. stdout w1 = stdout w @ rest"
      by (auto simp: fv_def find_valid_def Let_def split: if_splits sum.splits)
    from fv have i1: "image w1 = image w"
      by (auto simp: fv_def dest: find_valid_image split: if_splits)
    have step: "print_loop (Suc n) all D f k relip w =
        (if relip1 \<ge> length_sec ?sec \<or> relip1 \<ge> min_alloc ?sec then Some (Inr w1)
         else (case print_one D f k relip1 w1 of
                 Inl x \<Rightarrow> Some (Inl x)
               | Inr (len, w2) \<Rightarrow> print_loop n all D f k (relip1 + len) w2))"
      using lt fl fv [unfolded fv_def]
      by (simp add: print_loop.simps Let_def split del: if_split cong: if_weak_cong sum.case_cong_weak)
    show ?thesis
    proof (cases "relip1 \<ge> length_sec ?sec \<or> relip1 \<ge> min_alloc ?sec")
      case True
      with Suc.prems step a1 show ?thesis by simp
    next
      case False
      with Suc.prems step obtain len w2 where p: "print_one D f k relip1 w1 = Inr (len, w2)"
        and r: "print_loop n all D f k (relip1 + len) w2 = Some (Inr w')"
        by (auto split: sum.splits)
      from print_one_output [OF p] have "\<exists>rest. stdout w2 = stdout w1 @ rest"
        by blast
      with Suc.IH [OF r] a1 show ?thesis
        by auto
    qed
  qed
qed


lemma default_gap_step:
  assumes sz: "length (instr_flags (sections (image w) ! k)) = unat (min_alloc (sections (image w) ! k))"
    and lt: "relip < length_sec (sections (image w) ! k)"
    and im: "relip < min_alloc (sections (image w) ! k)"
    and nv: "instr_flags (sections (image w) ! k) ! unat relip AND INSTR_VALID = 0"
  shows "\<exists>r. relip < r \<and> r \<le> length_sec (sections (image w) ! k) \<and>
           r \<le> min_alloc (sections (image w) ! k) \<and>
           (\<forall>j. relip \<le> j \<and> j < r \<longrightarrow>
              instr_flags (sections (image w) ! k) ! unat j AND INSTR_VALID = 0) \<and>
           (r < length_sec (sections (image w) ! k) \<and> r < min_alloc (sections (image w) ! k) \<longrightarrow>
              instr_flags (sections (image w) ! k) ! unat r AND INSTR_VALID \<noteq> 0) \<and>
           print_loop (Suc n) False D f k relip w =
             (if length_sec (sections (image w) ! k) \<le> r \<or> min_alloc (sections (image w) ! k) \<le> r
              then Some (Inr (emit Gap w))
              else (case print_one D f k r (emit Gap w) of
                      Inl x \<Rightarrow> Some (Inl x)
                    | Inr (len, w2) \<Rightarrow> print_loop n False D f k (r + len) w2))"
proof -
  let ?sec = "sections (image w) ! k"
  from skip_invalid_spec [OF sz, of relip] obtain r
    where sk: "skip_invalid (image w) k relip = Inr r" and le: "relip \<le> r"
      and bd: "relip < length_sec ?sec \<and> relip < min_alloc ?sec
                 \<longrightarrow> r \<le> length_sec ?sec \<and> r \<le> min_alloc ?sec"
      and gap: "\<forall>j. relip \<le> j \<and> j < r \<longrightarrow> instr_flags ?sec ! unat j AND INSTR_VALID = 0"
      and hit: "r < length_sec ?sec \<and> r < min_alloc ?sec
                 \<longrightarrow> instr_flags ?sec ! unat r AND INSTR_VALID \<noteq> 0"
    by blast
  from hit lt im nv have "r \<noteq> relip"
    by blast
  with le have lt': "relip < r"
    by simp
  from im sz have "unat relip < length (instr_flags ?sec)"
    by (simp add: word_less_nat_alt)
  then have fg: "flag_get (image w) k relip = Inr (instr_flags ?sec ! unat relip)"
    by (simp add: flag_get_def)
  note eq = print_loop_default_gap [OF lt fg nv sk, of n D f]
  from lt' bd lt im gap hit eq show ?thesis
    by blast
qed


lemma default_gap_scenario:
  assumes sz: "length (instr_flags (sections (image w) ! k)) = unat (min_alloc (sections (image w) ! k))"
    and l10: "10 < length_sec (sections (image w) ! k)"
    and m10: "10 < min_alloc (sections (image w) ! k)"
    and gap: "\<forall>j < 10. instr_flags (sections (image w) ! k) ! j AND INSTR_VALID = 0"
    and hit: "instr_flags (sections (image w) ! k) ! 10 AND INSTR_VALID \<noteq> 0"
    and run: "print_disassembly (Suc n) False D f k w = Some (Inr w')"
  shows "\<exists>len ins c rest.
           D (10 + address (sections (image w) ! k)) (read_window f (sections (image w) ! k) 10)
             = (len, ins) \<and>
           stdout w' = stdout w @ Gap #
             (if instr_flags (sections (image w) ! k) ! 10 AND INSTR_FUNC \<noteq> 0
              then [Blank, FuncHeader (10 + address (sections (image w) ! k))
                             (get_export_name (10 + address (sections (image w) ! k)) (image w))]
              else []) @
             InstrLine (10 + address (sections (image w) ! k))
               (read_window f (sections (image w) ! k) 10) len
               (instr_flags (sections (image w) ! k) ! 10) ins c # rest"
proof -
  let ?sec = "sections (image w) ! k"
  let ?fl = "instr_flags ?sec"
  from l10 have lt: "0 < length_sec ?sec"
    by unat_arith
  from m10 have im: "0 < min_alloc ?sec"
    by unat_arith
  from gap have nv: "?fl ! unat (0 :: dword) AND INSTR_VALID = 0"
    by simp
  from default_gap_step [OF sz lt im nv, of n D f] obtain r
    where g: "\<forall>j. 0 \<le> j \<and> j < r \<longrightarrow> ?fl ! unat j AND INSTR_VALID = 0"
      and h: "r < length_sec ?sec \<and> r < min_alloc ?sec \<longrightarrow> ?fl ! unat r AND INSTR_VALID \<noteq> 0"
      and eq: "print_loop (Suc n) False D f k 0 w =
             (if length_sec ?sec \<le> r \<or> min_alloc ?sec \<le> r
              then Some (Inr (emit Gap w))
              else (case print_one D f k r (emit Gap w) of
                      Inl x \<Rightarrow> Some (Inl x)
                    | Inr (len, w2) \<Rightarrow> print_loop n False D f k (r + len) w2))"
    by blast
  have "\<not> 10 < r"
  proof
    assume "10 < r"
    with g [rule_format, of 10] have "?fl ! unat (10 :: dword) AND INSTR_VALID = 0"
      by simp
    with hit show False
      by simp
  qed
  moreover have "\<not> r < 10"
  proof
    assume r: "r < 10"
    with l10 m10 have "r < length_sec ?sec \<and> r < min_alloc ?sec"
      by (blast intro: less_trans)
    with h have "?fl ! unat r AND INSTR_VALID \<noteq> 0"
      by blast
    moreover from r have "unat r < 10"
      by (simp add: word_less_nat_alt)
    ultimately show False
      using gap by blast
  qed
  ultimately have r: "r = 10"
    by simp
  from l10 m10 have neg: "\<not> (length_sec ?sec \<le> 10 \<or> min_alloc ?sec \<le> 10)"
    by (simp add: not_le)
  have eq': "print_loop (Suc n) False D f k 0 w =
      (case print_one D f k 10 (emit Gap w) of
         Inl x \<Rightarrow> Some (Inl x)
       | Inr (len, w2) \<Rightarrow> print_loop n False D f k (10 + len) w2)"
    unfolding eq [unfolded r] by (rule if_not_P [OF neg])
  from run eq' obtain len w2 where p: "print_one D f k 10 (emit Gap w) = Inr (len, w2)"
    and rest: "print_loop n False D f k (10 + len) w2 = Some (Inr w')"
    by (auto simp: print_disassembly_def split: sum.splits)
  from sz m10 have "unat (10 :: dword) < length ?fl"
    by (simp add: word_less_nat_alt)
  then have fg: "flag_get (image (emit Gap w)) k 10 = Inr (?fl ! 10)"
    by (simp add: flag_get_def)
  from print_one_output [OF p] fg obtain ins c
    where d: "D (10 + address ?sec) (read_window f ?sec 10) = (len, ins)"
      and o: "stdout w2 = stdout (emit Gap w) @
             (if ?fl ! 10 AND INSTR_FUNC \<noteq> 0
              then [Blank, FuncHeader (10 + address ?sec) (get_export_name (10 + address ?sec) (image w))]
              else []) @
             [InstrLine (10 + address ?sec) (read_window f ?sec 10) len (?fl ! 10) ins c]"
    by auto
  from print_loop_appends [OF rest] obtain rest' where "stdout w' = stdout w2 @ rest'"
    by blast
  with o have "stdout w' = stdout w @ Gap #
             (if ?fl ! 10 AND INSTR_FUNC \<noteq> 0
              then [Blank, FuncHeader (10 + address ?sec) (get_export_name (10 + address ?sec) (image w))]
              else []) @
             InstrLine (10 + address ?sec) (read_window f ?sec 10) len (?fl ! 10) ins c # rest'"
    by simp
  with d show ?thesis
    by blast
qed

section \<open>C4: the file offset of an address\<close>

text \<open>
  C4, as amended. For an address in the virtual range of some section, \<^verbatim>\<open>addr2offset\<close>
  returns \<^verbatim>\<open>offset + (a - address)\<close> of the first such section, in \<^verbatim>\<open>dword\<close>
  arithmetic. For an address in the range of no section it returns 0.
\<close>

theorem addr2offset_first_section:
  "((\<exists>s \<in> set (sections pe). in_section a s) \<longrightarrow>
      (\<exists>k < length (sections pe).
          in_section a (sections pe ! k) \<and> (\<forall>j < k. \<not> in_section a (sections pe ! j)) \<and>
          addr2offset a pe = offset (sections pe ! k) + (a - address (sections pe ! k)))) \<and>
   ((\<forall>s \<in> set (sections pe). \<not> in_section a s) \<longrightarrow> addr2offset a pe = 0)"
proof (intro conjI impI)
  assume "\<exists>s \<in> set (sections pe). in_section a s"
  then have "addr2section a pe \<noteq> None"
    by (simp add: addr2section_None)
  then obtain k where k: "addr2section a pe = Some k"
    by blast
  from addr2section_Some [OF k] k
  show "\<exists>k < length (sections pe).
          in_section a (sections pe ! k) \<and> (\<forall>j < k. \<not> in_section a (sections pe ! j)) \<and>
          addr2offset a pe = offset (sections pe ! k) + (a - address (sections pe ! k))"
    by (auto simp: addr2offset_def)
next
  assume "\<forall>s \<in> set (sections pe). \<not> in_section a s"
  then have "addr2section a pe = None"
    by (simp add: addr2section_None)
  then show "addr2offset a pe = 0"
    by (simp add: addr2offset_def)
qed

theorem addr2offset_first_section_witness:
  "in_section 0x1002 bss_section \<and> addr2offset 0x1002 bss_image = 2 \<and>
   \<not> in_section 0x5000 bss_section \<and> addr2offset 0x5000 bss_image = 0"
proof -
  have hit: "in_section 0x1002 bss_section"
    by (simp add: bss_section_def in_section_def)
  have miss: "\<not> in_section 0x5000 bss_section"
    by (simp add: bss_section_def in_section_def)
  from addr2offset_first_section [of bss_image "0x1002"] hit
  have "addr2offset 0x1002 bss_image = 2"
    by (auto simp: bss_image_def bss_section_def)
  moreover from addr2offset_first_section [of bss_image "0x5000"] miss
  have "addr2offset 0x5000 bss_image = 0"
    by (simp add: bss_image_def)
  ultimately show ?thesis using hit miss by blast
qed

text \<open>
  C4 as stated fails: the result for an address that is not mapped is the number 0, which
  is also the result for the first byte of a section whose data is at file offset 0.
\<close>

theorem addr2offset_zero_is_ambiguous:
  "addr2section 0x5000 bss_image = None \<and> addr2section 0x1000 bss_image = Some 0 \<and>
   addr2offset 0x5000 bss_image = addr2offset 0x1000 bss_image"
  by (simp add: addr2offset_def addr2section_def bss_image_def bss_section_def)

section \<open>C5: the name of an import\<close>

text \<open>
  C5, as amended. \<^verbatim>\<open>get_imported_name\<close> subtracts the image base from the address and
  returns the name at index \<open>i\<close> of the first import group, in order, for which
  \<^verbatim>\<open>(address - image base - nametab_addr) / 4\<close>, a truncating division in 32-bit unsigned
  arithmetic, is an index \<open>i < count\<close>; when no group has such an index the result is
  none. The remainder of the division is not looked at. The name table of a group has at
  least \<open>count\<close> entries.
\<close>

theorem get_imported_name_truncates:
  assumes "\<forall>m \<in> set (imports_pe pe). unat (count m) \<le> length (nametab m)"
  shows "get_imported_name a pe =
           Inr (map_option (\<lambda>m. nametab m ! unat (import_index (a - ImageBase pe) m))
                  (find (\<lambda>m. import_index (a - ImageBase pe) m < count m) (imports_pe pe))) \<and>
         (\<forall>m. unat (import_index (a - ImageBase pe) m)
                = unat (a - ImageBase pe - nametab_addr m) div 4)"
  using get_imported_name_from_find [OF assms]
  by (simp add: get_imported_name_def import_index_def unat_div)

theorem get_imported_name_truncates_witness:
  "get_imported_name 0x402004 import_image = Inr (Some ''ExitProcess'') \<and>
   get_imported_name 0x402008 import_image = Inr None"
proof -
  have wf: "\<forall>m \<in> set (imports_pe import_image). unat (count m) \<le> length (nametab m)"
    by (simp add: import_image_def)
  show ?thesis
    using get_imported_name_truncates [OF wf, of "0x402004"]
          get_imported_name_truncates [OF wf, of "0x402008"]
    by (simp add: import_image_def import_index_def)
qed

text \<open>
  C5 as stated fails: the address \<^verbatim>\<open>0x402005\<close> lies 5 bytes past the table, 5 is not a
  multiple of the address width, and the name of slot 1 is returned all the same.
\<close>

theorem get_imported_name_uneven:
  "get_imported_name 0x402005 import_image = Inr (Some ''ExitProcess'') \<and>
   unat (0x402005 - ImageBase import_image - 0x2000 :: dword) mod 4 = 1"
  by (simp add: get_imported_name_def import_image_def import_index_def)

section \<open>C2: an instruction that ends where the allocation ends\<close>

text \<open>
  C2, at the input where the code departs from it. The section has two bytes and
  \<^verbatim>\<open>min_alloc = 2\<close>; its entry point is a two-byte conditional jump to itself, whose span
  \<^verbatim>\<open>[0, 2)\<close> ends at \<^verbatim>\<open>min_alloc\<close> and does not extend past it. Line 201 compares the
  counter with \<^verbatim>\<open>ip + instr_length\<close>, an address, where the loop above it compares with
  \<^verbatim>\<open>relip + instr_length\<close>, an offset: the test holds, the scan leaves the loop as if the
  instruction hung over the allocation, the jump is not followed (its target byte 0 gets
  \<^verbatim>\<open>VALID\<close> and \<^verbatim>\<open>SCANNED\<close>, not \<^verbatim>\<open>JUMP\<close>), and the only thing reported is the end of the
  section.
\<close>

theorem scan_stops_at_exact_end:
  "scan_segment (Suc (Suc n)) jz_self tail_file 0x1000 (start_world tail_image) =
     Some (Inr \<lparr>image = tail_image\<lparr>sections := [tail_section\<lparr>instr_flags := [3, 1]\<rparr>]\<rparr>,
                 stderr = [EndOfSection 0x1000], stdout = [], steps = 2\<rparr>)"
  by (simp add: scan_eval jz_self_def tail_section_def tail_image_def tail_file_def
        start_world_def)
section \<open>C3: a second run of the scanner changes nothing\<close>

text \<open>
  C3. Let the decoder give every instruction a length from 1 to \<^verbatim>\<open>MAX_INSTR\<close>, and let
  every map have \<^verbatim>\<open>min_alloc\<close> bytes with \<^verbatim>\<open>min_alloc\<close> below \<open>2 ^ 31\<close>. When
  \<^verbatim>\<open>read_sections\<close> (a scan from every export, then one from the entry point unless the
  image is flagged as having none) has returned, a second run of \<^verbatim>\<open>read_sections\<close> on the
  state it left returns as well, with two units of fuel for each scan, and leaves the
  image, and so every classification map, exactly as the first run left it: after the
  first run every entry address is in no section, or beyond the bytes of its section in
  the file, or at a byte that is \<^verbatim>\<open>SCANNED\<close>, and a scan from such an address returns
  before it writes a flag.
\<close>

theorem read_sections_idempotent:
  assumes D: "decoder_ok D" and ok: "image_ok (image w)"
    and first: "read_sections n D f w = Some (Inr w1)"
  shows "\<exists>w2. read_sections (Suc (Suc m)) D f w1 = Some (Inr w2) \<and> image w2 = image w1"
proof -
  from first obtain w0 where a: "scan_exports n D f (exports (image w)) w = Some (Inr w0)"
    and b: "(if Characteristics (image w0) AND 0x2000 = 0
             then scan_segment n D f (AddressOfEntryPoint (image w0)) w0
             else Some (Inr w0)) = Some (Inr w1)"
    by (auto simp: read_sections_def split: option.splits sum.splits)
  note g0 = scan_exports_grows [OF a, THEN conjunct1]
  from ok g0 have ok0: "image_ok (image w0)"
    by (rule image_ok_grows)
  from b have g1: "grows (image w0) (image w1)"
    by (auto simp: grows_refl dest: scan_segment_grows split: if_splits)
  from g0 g1 have g: "grows (image w) (image w1)"
    by (rule grows_trans)
  then have ex: "exports (image w1) = exports (image w)"
    unfolding grows_def by (rule pe_rel_fields)
  from g1 have ch: "Characteristics (image w1) = Characteristics (image w0)"
    and en: "AddressOfEntryPoint (image w1) = AddressOfEntryPoint (image w0)"
    unfolding grows_def by (rule pe_rel_fields)+
  from scan_exports_settles [OF D ok a] g1
  have "\<forall>e \<in> set (exports (image w1)). settled (export.address e) (image w1)"
    unfolding ex by (blast intro: settled_grows)
  from scan_exports_again [OF this, of m D f] obtain w2
    where a2: "scan_exports (Suc (Suc m)) D f (exports (image w1)) w1 = Some (Inr w2)"
      and i2: "image w2 = image w1"
    by blast
  show ?thesis
  proof (cases "Characteristics (image w0) AND 0x2000 = 0")
    case False
    with a2 i2 ch show ?thesis
      by (simp add: read_sections_def)
  next
    case True
    with b have "scan_segment n D f (AddressOfEntryPoint (image w0)) w0 = Some (Inr w1)"
      by simp
    from scan_segment_settles [OF D ok0 this]
    have "settled (AddressOfEntryPoint (image w2)) (image w2)"
      by (simp add: i2 en)
    from settled_again [OF this, of m D f] obtain w3
      where "scan_segment (Suc (Suc m)) D f (AddressOfEntryPoint (image w2)) w2 = Some (Inr w3)"
        and "image w3 = image w2"
      by blast
    with a2 i2 ch True show ?thesis
      by (simp add: read_sections_def)
  qed
qed

theorem read_sections_idempotent_witness:
  "decoder_ok jmp_self \<and> image_ok (image (start_world export_image)) \<and>
   read_sections (Suc (Suc (Suc (Suc 0)))) jmp_self loop_file (start_world export_image)
     = Some (Inr export_scanned) \<and>
   (\<exists>w2. read_sections (Suc (Suc 0)) jmp_self loop_file export_scanned = Some (Inr w2) \<and>
         image w2 = image export_scanned)"
proof -
  have ok: "image_ok (image (start_world export_image))"
    by (simp add: image_ok_def loop_eval export_image_def)
  from read_sections_idempotent [OF decoder_ok_jmp_self ok export_scan, of 0]
    decoder_ok_jmp_self ok export_scan
  show ?thesis
    by blast
qed

section \<open>C1: the scanner terminates\<close>

text \<open>
  C1. Let the decoder give every instruction a length from 1 to \<^verbatim>\<open>MAX_INSTR\<close>, and let
  every map have \<^verbatim>\<open>min_alloc\<close> bytes with \<^verbatim>\<open>min_alloc\<close> below \<open>2 ^ 31\<close>. Then for every
  image, file and entry address \<^verbatim>\<open>scan_segment\<close> ends: fuel of twice the number of bytes
  that are not yet \<^verbatim>\<open>SCANNED\<close>, plus two, is enough, whatever the control flow. When it
  returns, the number of its calls and loop iterations is at most three times the number
  of bytes it has newly marked \<^verbatim>\<open>SCANNED\<close>, plus two. The reason is the second part: an
  iteration that does not return at a \<^verbatim>\<open>SCANNED\<close> byte marks that byte, which lowers the
  number of bytes not yet \<^verbatim>\<open>SCANNED\<close>. Third part, the scenario: in an image with the one
  section \<^verbatim>\<open>[0x1000, 0x1000 + 0x40)\<close> and an empty map, whose entry point decodes to a
  two-byte jump to itself, the scan returns with fuel 4, the entry byte is
  \<^verbatim>\<open>VALID\<close>, \<^verbatim>\<open>SCANNED\<close> and \<^verbatim>\<open>JUMP\<close>, the byte after it \<^verbatim>\<open>SCANNED\<close>, and no warning
  is written.
\<close>

theorem scan_segment_terminates:
  "(decoder_ok D \<and> image_ok (image w) \<and> 2 * unscanned (image w) + 2 \<le> n \<longrightarrow>
      (\<exists>r. scan_segment n D f ip w = Some r) \<and>
      (\<forall>w'. scan_segment n D f ip w = Some (Inr w') \<longrightarrow>
         steps w' + 3 * unscanned (image w') \<le> steps w + 3 * unscanned (image w) + 2)) \<and>
   (decoder_ok D \<and> image_ok pe \<and> k < length (sections pe) \<and>
    flag_get pe k relip = Inr fl \<and> fl AND INSTR_SCANNED = 0 \<and> D a p = (len, ins) \<and>
    mark_instr pe k relip len = Inr (pe', i) \<longrightarrow>
      instr_flags (sections pe' ! k) ! unat relip AND INSTR_SCANNED \<noteq> 0 \<and>
      unscanned pe' < unscanned pe) \<and>
   (sections (image v) = [sec] \<and> address sec = 0x1000 \<and> min_alloc sec = 0x40 \<and>
    length_sec sec = 0x40 \<and> instr_flags sec = replicate 0x40 0 \<and>
    D 0x1000 (read_window f sec 0) = (2, jmp) \<and> op_branch jmp \<and> op_stop jmp \<and>
    arg0 jmp = 0x1000 \<and> op_name jmp \<noteq> ''call'' \<longrightarrow>
      (\<exists>v'. scan_segment (Suc (Suc (Suc (Suc m)))) D f 0x1000 v = Some (Inr v') \<and>
         stderr v' = stderr v \<and>
         instr_flags (sections (image v') ! 0) ! 0
           = INSTR_VALID OR INSTR_SCANNED OR INSTR_JUMP \<and>
         instr_flags (sections (image v') ! 0) ! 1 = INSTR_SCANNED \<and>
         steps v' = steps v + 4))"
proof (intro conjI impI)
  assume h: "decoder_ok D \<and> image_ok (image w) \<and> 2 * unscanned (image w) + 2 \<le> n"
  then show "\<exists>r. scan_segment n D f ip w = Some r"
    by (blast intro: scan_segment_total)
  from h show "\<forall>w'. scan_segment n D f ip w = Some (Inr w') \<longrightarrow>
         steps w' + 3 * unscanned (image w') \<le> steps w + 3 * unscanned (image w) + 2"
    by (blast intro: scan_segment_steps)
next
  assume h: "decoder_ok D \<and> image_ok pe \<and> k < length (sections pe) \<and>
    flag_get pe k relip = Inr fl \<and> fl AND INSTR_SCANNED = 0 \<and> D a p = (len, ins) \<and>
    mark_instr pe k relip len = Inr (pe', i)"
  then have l0: "0 < len" and l1: "unat len \<le> MAX_INSTR"
    using decoder_okD [of D a p len ins] by simp_all
  from h have ok: "image_ok pe" and k: "k < length (sections pe)"
    and fl: "flag_get pe k relip = Inr fl" and un: "fl AND INSTR_SCANNED = 0"
    and mk: "mark_instr pe k relip len = Inr (pe', i)"
    by simp_all
  from mark_instr_valid_scanned(1) [OF mk ok k l0 l1]
  show "instr_flags (sections pe' ! k) ! unat relip AND INSTR_SCANNED \<noteq> 0" .
  from mark_instr_unscanned [OF mk fl un ok k l0 l1]
  show "unscanned pe' < unscanned pe" .
next
  assume "sections (image v) = [sec] \<and> address sec = 0x1000 \<and> min_alloc sec = 0x40 \<and>
    length_sec sec = 0x40 \<and> instr_flags sec = replicate 0x40 0 \<and>
    D 0x1000 (read_window f sec 0) = (2, jmp) \<and> op_branch jmp \<and> op_stop jmp \<and>
    arg0 jmp = 0x1000 \<and> op_name jmp \<noteq> ''call''"
  then show "\<exists>v'. scan_segment (Suc (Suc (Suc (Suc m)))) D f 0x1000 v = Some (Inr v') \<and>
         stderr v' = stderr v \<and>
         instr_flags (sections (image v') ! 0) ! 0
           = INSTR_VALID OR INSTR_SCANNED OR INSTR_JUMP \<and>
         instr_flags (sections (image v') ! 0) ! 1 = INSTR_SCANNED \<and>
         steps v' = steps v + 4"
    by (elim conjE) (rule self_loop_scan)
qed

theorem scan_segment_terminates_witness:
  "decoder_ok jmp_self \<and> image_ok (image (start_world loop_image)) \<and>
   2 * unscanned (image (start_world loop_image)) + 2 \<le> 10 \<and>
   (\<exists>r. scan_segment 10 jmp_self loop_file 0x1000 (start_world loop_image) = Some r) \<and>
   (\<exists>v'. scan_segment (Suc (Suc (Suc (Suc 0)))) jmp_self scenario_file 0x1000
            (start_world scenario_image) = Some (Inr v') \<and>
         stderr v' = [] \<and>
         instr_flags (sections (image v') ! 0) ! 0 = INSTR_VALID OR INSTR_SCANNED OR INSTR_JUMP)"
proof -
  have ok: "image_ok (image (start_world loop_image))"
    by (simp add: image_ok_def loop_eval)
  have u: "2 * unscanned (image (start_world loop_image)) + 2 \<le> 10"
    by (simp add: unscanned_def unsc_def loop_eval INSTR_SCANNED_def)
  note t = scan_segment_terminates [where D = jmp_self and w = "start_world loop_image"
      and n = 10 and f = loop_file and ip = "0x1000"]
  note t' = scan_segment_terminates [where D = jmp_self and f = scenario_file
      and v = "start_world scenario_image" and sec = scenario_section
      and jmp = "snd (jmp_self 0x1000 [])" and m = 0]
  from t decoder_ok_jmp_self ok u
  have a: "\<exists>r. scan_segment 10 jmp_self loop_file 0x1000 (start_world loop_image) = Some r"
    by blast
  have sc: "sections (image (start_world scenario_image)) = [scenario_section] \<and>
    address scenario_section = 0x1000 \<and> min_alloc scenario_section = 0x40 \<and>
    length_sec scenario_section = 0x40 \<and> instr_flags scenario_section = replicate 0x40 0 \<and>
    jmp_self 0x1000 (read_window scenario_file scenario_section 0) = (2, snd (jmp_self 0x1000 [])) \<and>
    op_branch (snd (jmp_self 0x1000 [])) \<and> op_stop (snd (jmp_self 0x1000 [])) \<and>
    arg0 (snd (jmp_self 0x1000 [])) = 0x1000 \<and> op_name (snd (jmp_self 0x1000 [])) \<noteq> ''call''"
    by (simp add: start_world_def scenario_image_def scenario_section_def jmp_self_def)
  from t' sc obtain v' where
    "scan_segment (Suc (Suc (Suc (Suc 0)))) jmp_self scenario_file 0x1000
       (start_world scenario_image) = Some (Inr v')"
    "stderr v' = stderr (start_world scenario_image)"
    "instr_flags (sections (image v') ! 0) ! 0 = INSTR_VALID OR INSTR_SCANNED OR INSTR_JUMP"
    by blast
  then have b: "\<exists>v'. scan_segment (Suc (Suc (Suc (Suc 0)))) jmp_self scenario_file 0x1000
            (start_world scenario_image) = Some (Inr v') \<and>
         stderr v' = [] \<and>
         instr_flags (sections (image v') ! 0) ! 0 = INSTR_VALID OR INSTR_SCANNED OR INSTR_JUMP"
    by (auto simp: start_world_def)
  from decoder_ok_jmp_self ok u a b show ?thesis
    by blast
qed

section \<open>C6: a valid byte is a scanned byte\<close>

text \<open>
  C6. Start from an image whose maps are all empty, each with \<^verbatim>\<open>min_alloc\<close> bytes and
  \<^verbatim>\<open>min_alloc\<close> below \<open>2 ^ 31\<close>, and let the decoder give every instruction a length from
  1 to \<^verbatim>\<open>MAX_INSTR\<close>. In every state that a sequence of returning calls of
  \<^verbatim>\<open>scan_segment\<close> reaches, every byte with the \<^verbatim>\<open>VALID\<close> bit has the \<^verbatim>\<open>SCANNED\<close> bit.
  A byte can be \<^verbatim>\<open>SCANNED\<close> without being \<^verbatim>\<open>VALID\<close>: after the scan of the two-byte
  jump of \<open>loop_image\<close> the second byte of the jump is.
\<close>

theorem valid_implies_scanned:
  "(decoder_ok D \<and> reachable D f w \<longrightarrow> valid_scanned (image w)) \<and>
   decoder_ok jmp_self \<and> reachable jmp_self loop_file loop_scanned \<and>
   instr_flags (sections (image loop_scanned) ! 0) ! 1 AND INSTR_SCANNED \<noteq> 0 \<and>
   instr_flags (sections (image loop_scanned) ! 0) ! 1 AND INSTR_VALID = 0"
proof (intro conjI impI)
  assume "decoder_ok D \<and> reachable D f w"
  then show "valid_scanned (image w)"
    using reachable_invariants by blast
next
  show "decoder_ok jmp_self"
    by (rule decoder_ok_jmp_self)
  show "reachable jmp_self loop_file loop_scanned"
    by (rule loop_reachable)
  show "instr_flags (sections (image loop_scanned) ! 0) ! 1 AND INSTR_SCANNED \<noteq> 0"
    by (simp add: loop_scanned_def INSTR_SCANNED_def)
  show "instr_flags (sections (image loop_scanned) ! 0) ! 1 AND INSTR_VALID = 0"
    by (simp add: loop_scanned_def INSTR_VALID_def)
qed

theorem valid_implies_scanned_witness:
  "decoder_ok jmp_self \<and> reachable jmp_self loop_file loop_scanned \<and>
   valid_scanned (image loop_scanned)"
  using valid_implies_scanned [of jmp_self loop_file loop_scanned]
  by blast

section \<open>C7: disassemble-all mode at a byte that is not valid\<close>

text \<open>
  C7, at the input where the code departs from it. In disassemble-all mode the sweep
  stands at offset 0 of a section whose bytes are \<^verbatim>\<open>90 00 00 C3\<close>, none of them
  \<^verbatim>\<open>VALID\<close>. The byte at offset 0 is not zero and no gap marker is printed; but the
  \<^verbatim>\<open>read_byte\<close> of line 129 has moved the file position to offset 1, so the loop of
  line 133 reads the bytes at offsets 1 and 2, finds them zero and advances \<^verbatim>\<open>relip\<close>
  twice. The first instruction printed is the one decoded at offset 2 (address
  \<^verbatim>\<open>0x1002\<close>, window \<^verbatim>\<open>00 C3\<close>), not one at offset 0.
\<close>

theorem print_all_skips_nonzero_byte:
  "print_disassembly (Suc (Suc (Suc n))) True one_byte data_file 0 (start_world data_image) =
     Some (Inr ((start_world data_image)
       \<lparr>stdout :=
          [InstrLine 0x1002 ([0, 0xC3] @ replicate 14 0) 1 0 (snd (one_byte 0x1002 [])) None,
           InstrLine 0x1003 ([0xC3] @ replicate 15 0) 1 0 (snd (one_byte 0x1003 [])) None,
           Blank]\<rparr>))"
  by (simp add: print_eval scan_eval one_byte_def data_section_def data_image_def
        data_file_def start_world_def)
section \<open>C9: the scanner only sets bits, the renderer only reads\<close>

text \<open>
  C9. A call of \<^verbatim>\<open>scan_segment\<close> that returns, and a run of \<^verbatim>\<open>read_sections\<close> that
  returns, leave an image that differs from the one before in its classification maps
  only; the maps keep their sizes, every bit that was set in a byte is still set, and the
  bits that were added are among \<^verbatim>\<open>VALID\<close>, \<^verbatim>\<open>SCANNED\<close>, \<^verbatim>\<open>FUNC\<close> and \<^verbatim>\<open>JUMP\<close>
  (\<open>grows\<close>). \<^verbatim>\<open>print_disassembly\<close> returns with the image it was given.
\<close>

theorem scanner_only_sets_bits:
  "(scan_segment n D f ip w = Some (Inr w') \<longrightarrow> grows (image w) (image w')) \<and>
   (read_sections n D f w = Some (Inr w') \<longrightarrow> grows (image w) (image w')) \<and>
   (print_disassembly m all D f k v = Some (Inr v') \<longrightarrow> image v' = image v)"
  by (auto simp: print_disassembly_def dest: scan_segment_grows read_sections_grows print_loop_image)

theorem scanner_only_sets_bits_witness:
  "scan_segment (Suc (Suc (Suc (Suc 0)))) jmp_self loop_file 0x1000 (start_world loop_image) =
     Some (Inr loop_scanned) \<and>
   grows loop_image (image loop_scanned) \<and>
   print_disassembly (Suc (Suc (Suc 0))) False jmp_self loop_file 0 loop_scanned =
     Some (Inr (loop_scanned\<lparr>stdout := loop_listing\<rparr>)) \<and>
   image (loop_scanned\<lparr>stdout := loop_listing\<rparr>) = image loop_scanned"
proof -
  note t = scanner_only_sets_bits [of "Suc (Suc (Suc (Suc 0)))" jmp_self loop_file "0x1000"
      "start_world loop_image" loop_scanned "Suc (Suc (Suc 0))" False 0 loop_scanned
      "loop_scanned\<lparr>stdout := loop_listing\<rparr>"]
  from t loop_scan have "grows (image (start_world loop_image)) (image loop_scanned)"
    by blast
  then have "grows loop_image (image loop_scanned)"
    by (simp add: start_world_def)
  moreover from t loop_print
  have "image (loop_scanned\<lparr>stdout := loop_listing\<rparr>) = image loop_scanned"
    by blast
  ultimately show ?thesis
    using loop_scan loop_print by blast
qed

section \<open>C10: a scan that enters the middle of an instruction\<close>

text \<open>
  C10. A call of \<^verbatim>\<open>scan_segment\<close> at an address whose byte is \<^verbatim>\<open>SCANNED\<close> and not
  \<^verbatim>\<open>VALID\<close> returns (two units of fuel are enough), writes the warning that the byte
  does not begin an instruction, and leaves the image, and so every classification map,
  as it was. When the byte lies beyond the bytes of the section in the file, the warning
  that the scan reached the end of the section follows.
\<close>

theorem scan_mid_instruction:
  assumes sec: "addr2section ip (image w) = Some k"
    and fl: "flag_get (image w) k (ip - address (sections (image w) ! k)) = Inr fl"
    and mid: "fl AND (INSTR_VALID OR INSTR_SCANNED) = INSTR_SCANNED"
  shows "\<exists>w'. scan_segment (Suc (Suc n)) D f ip w = Some (Inr w') \<and>
           image w' = image w \<and> stdout w' = stdout w \<and>
           stderr w' = stderr w @ NotBeginInstr ip #
             (if ip - address (sections (image w) ! k) < length_sec (sections (image w) ! k)
              then [] else [EndOfSection ip])"
proof -
  let ?w1 = "warn (NotBeginInstr ip) (tick w)"
  from sec fl mid have a: "scan_segment (Suc (Suc n)) D f ip w = scan_loop (Suc n) D f k ip ?w1"
    by (simp add: scan_segment.simps)
  from fl have fl1: "flag_get (image ?w1) k (ip - address (sections (image ?w1) ! k)) = Inr fl"
    by simp
  from scanned_not_valid [OF mid] have s: "fl AND INSTR_SCANNED \<noteq> 0" .
  have "scan_loop (Suc n) D f k ip ?w1 =
      Some (Inr (if ip - address (sections (image w) ! k) < length_sec (sections (image w) ! k)
                 then tick ?w1 else warn (EndOfSection ip) ?w1))"
    using fl1 s by (simp add: scan_loop.simps Let_def)
  with a show ?thesis
    by simp
qed


theorem scan_mid_instruction_witness:
  "\<exists>w'. scan_segment (Suc (Suc 0)) jmp_self loop_file 0x1001 loop_scanned = Some (Inr w') \<and>
         image w' = image loop_scanned \<and> stderr w' = [NotBeginInstr 0x1001]"
proof -
  have sec: "addr2section 0x1001 (image loop_scanned) = Some 0"
    by (simp add: loop_scanned_def loop_eval addr2section_def)
  have fl: "flag_get (image loop_scanned) 0
              (0x1001 - address (sections (image loop_scanned) ! 0)) = Inr 1"
    by (simp add: loop_scanned_def loop_eval flag_get_def)
  have mid: "(1 :: byte) AND (INSTR_VALID OR INSTR_SCANNED) = INSTR_SCANNED"
    by (simp add: INSTR_VALID_def INSTR_SCANNED_def)
  from scan_mid_instruction [OF sec fl mid, of 0 jmp_self loop_file]
  obtain w' where run: "scan_segment (Suc (Suc 0)) jmp_self loop_file 0x1001 loop_scanned = Some (Inr w')"
    and img: "image w' = image loop_scanned"
    and err: "stderr w' = stderr loop_scanned @ NotBeginInstr 0x1001 #
       (if 0x1001 - address (sections (image loop_scanned) ! 0)
             < length_sec (sections (image loop_scanned) ! 0)
        then [] else [EndOfSection 0x1001])"
    by blast
  from err have "stderr w' = [NotBeginInstr 0x1001]"
    by (simp add: loop_scanned_def loop_eval)
  with run img show ?thesis
    by blast
qed
end
